theory Spec2Isabelle
  imports Main
begin

section \<open>Python strings and bytes\<close>

text \<open>
  A Python \<open>str\<close> is a sequence of Unicode code points and \<open>len\<close> counts code points;
  a \<open>bytes\<close> object is a sequence of octets and \<open>len\<close> counts octets. The two are kept
  apart here because \<open>hocr_page_text\<close> passes through both and the plain text offsets
  depend on which of the two lengths is taken. Code points are natural numbers in the
  range \<open>0 .. 0x10FFFF\<close>, octets natural numbers below 256.
\<close>

type_synonym pystr = "nat list"
type_synonym pybytes = "nat list"

datatype error = UnicodeEncodeError | UnicodeDecodeError | ExpatError

definition ascii :: "string \<Rightarrow> pystr" where
  "ascii s = map of_char s"

text \<open>
  \<open>str.strip()\<close> without argument removes leading and trailing characters for which
  CPython's \<open>Py_UNICODE_ISSPACE\<close> holds.
\<close>

definition isspace :: "nat \<Rightarrow> bool" where
  "isspace c \<longleftrightarrow>
     (0x09 \<le> c \<and> c \<le> 0x0D) \<or> (0x1C \<le> c \<and> c \<le> 0x20) \<or> c = 0x85 \<or> c = 0xA0 \<or>
     c = 0x1680 \<or> (0x2000 \<le> c \<and> c \<le> 0x200A) \<or> c = 0x2028 \<or> c = 0x2029 \<or>
     c = 0x202F \<or> c = 0x205F \<or> c = 0x3000"

definition strip :: "pystr \<Rightarrow> pystr" where
  "strip s = rev (dropWhile isspace (rev (dropWhile isspace s)))"

text \<open>
  \<open>str.encode('utf-8')\<close> with the default strict error handler: a lone surrogate raises
  \<open>UnicodeEncodeError\<close>. Values from \<open>0x110000\<close> on are no Python code points; the
  model rejects them as well.
\<close>

definition encode_char :: "nat \<Rightarrow> error + pybytes" where
  "encode_char c =
     (if c < 0x80 then Inr [c]
      else if c < 0x800 then Inr [0xC0 + c div 0x40, 0x80 + c mod 0x40]
      else if c < 0x10000 then
        (if 0xD800 \<le> c \<and> c \<le> 0xDFFF then Inl UnicodeEncodeError
         else Inr [0xE0 + c div 0x1000, 0x80 + (c div 0x40) mod 0x40, 0x80 + c mod 0x40])
      else if c < 0x110000 then
        Inr [0xF0 + c div 0x40000, 0x80 + (c div 0x1000) mod 0x40,
             0x80 + (c div 0x40) mod 0x40, 0x80 + c mod 0x40]
      else Inl UnicodeEncodeError)"

fun utf8_encode :: "pystr \<Rightarrow> error + pybytes" where
  "utf8_encode [] = Inr []"
| "utf8_encode (c # cs) =
     (case encode_char c of
        Inl e \<Rightarrow> Inl e
      | Inr bs \<Rightarrow> (case utf8_encode cs of Inl e \<Rightarrow> Inl e | Inr rest \<Rightarrow> Inr (bs @ rest)))"

text \<open>
  \<open>bytes.decode('utf-8')\<close>, strict: truncated sequences, stray continuation octets,
  overlong forms, surrogates and values above \<open>0x10FFFF\<close> raise \<open>UnicodeDecodeError\<close>.
\<close>

definition is_cont :: "nat \<Rightarrow> bool" where
  "is_cont b \<longleftrightarrow> 0x80 \<le> b \<and> b < 0xC0"

definition decoded :: "nat \<Rightarrow> error + pystr \<Rightarrow> error + pystr" where
  "decoded c r = (case r of Inl e \<Rightarrow> Inl e | Inr s \<Rightarrow> Inr (c # s))"

fun utf8_decode :: "pybytes \<Rightarrow> error + pystr" where
  "utf8_decode [] = Inr []"
| "utf8_decode (b0 # bs) =
     (if b0 < 0x80 then decoded b0 (utf8_decode bs)
      else if b0 < 0xC2 then Inl UnicodeDecodeError
      else if b0 < 0xE0 then
        (case bs of
           b1 # r \<Rightarrow>
             if is_cont b1 then decoded ((b0 - 0xC0) * 0x40 + (b1 - 0x80)) (utf8_decode r)
             else Inl UnicodeDecodeError
         | _ \<Rightarrow> Inl UnicodeDecodeError)
      else if b0 < 0xF0 then
        (case bs of
           b1 # b2 # r \<Rightarrow>
             (let c = (b0 - 0xE0) * 0x1000 + (b1 - 0x80) * 0x40 + (b2 - 0x80) in
              if is_cont b1 \<and> is_cont b2 \<and> 0x800 \<le> c \<and> \<not> (0xD800 \<le> c \<and> c \<le> 0xDFFF)
              then decoded c (utf8_decode r)
              else Inl UnicodeDecodeError)
         | _ \<Rightarrow> Inl UnicodeDecodeError)
      else if b0 < 0xF5 then
        (case bs of
           b1 # b2 # b3 # r \<Rightarrow>
             (let c = (b0 - 0xF0) * 0x40000 + (b1 - 0x80) * 0x1000 + (b2 - 0x80) * 0x40
                      + (b3 - 0x80) in
              if is_cont b1 \<and> is_cont b2 \<and> is_cont b3 \<and> 0x10000 \<le> c \<and> c < 0x110000
              then decoded c (utf8_decode r)
              else Inl UnicodeDecodeError)
         | _ \<Rightarrow> Inl UnicodeDecodeError)
      else Inl UnicodeDecodeError)"


section \<open>The word data of a page\<close>

text \<open>
  \<open>hocr_page_to_word_data\<close> and \<open>hocr_page_to_word_data_fast\<close> return a list of
  paragraph dictionaries; a paragraph has the key \<open>'lines'\<close>, a line the key \<open>'words'\<close>,
  a word the keys \<open>'text'\<close> (here \<open>word_text\<close>) and \<open>'confidence'\<close>. Only these keys are read by
  \<open>hocr/text.py\<close>.
\<close>

record hocr_word =
  word_text :: pystr
  confidence :: int

record hocr_line =
  words :: "hocr_word list"

record hocr_paragraph =
  lines :: "hocr_line list"

definition MIN_WORD_CONF :: int where
  "MIN_WORD_CONF = 75"


section \<open>hocr_page_text\<close>

text \<open>
  The three nested loops of \<open>hocr_page_text\<close>, innermost first. The loop over the words
  of a line carries \<open>line_words\<close> and \<open>block_data\<close>; the loop over the lines of a
  paragraph carries \<open>text\<close> and \<open>block_data\<close>; the loop over the paragraphs carries
  \<open>text\<close>. Encoding or decoding errors leave the function at once.
\<close>

fun page_text_words :: "hocr_word list \<Rightarrow> pystr \<times> bool \<Rightarrow> pystr \<times> bool" where
  "page_text_words [] (line_words, block_data) = (line_words, block_data)"
| "page_text_words (word # rest) (line_words, block_data) =
     (if confidence word < MIN_WORD_CONF then page_text_words rest (line_words, block_data)
      else page_text_words rest (line_words @ word_text word @ ascii '' '', True))"

fun page_text_lines :: "hocr_line list \<Rightarrow> pystr \<times> bool \<Rightarrow> error + (pystr \<times> bool)" where
  "page_text_lines [] (txt, block_data) = Inr (txt, block_data)"
| "page_text_lines (ln # rest) (txt, block_data) =
     (case page_text_words (words ln) ([], block_data) of
        (line_words, block_data') \<Rightarrow>
          (case utf8_encode (strip line_words) of
             Inl e \<Rightarrow> Inl e
           | Inr line_bytes \<Rightarrow>
               if line_bytes \<noteq> [] then
                 (case utf8_decode line_bytes of
                    Inl e \<Rightarrow> Inl e
                  | Inr s \<Rightarrow> page_text_lines rest (txt @ ascii '' '' @ s, block_data'))
               else page_text_lines rest (txt, block_data')))"

fun page_text_paragraphs :: "hocr_paragraph list \<Rightarrow> pystr \<Rightarrow> error + pystr" where
  "page_text_paragraphs [] txt = Inr txt"
| "page_text_paragraphs (p # rest) txt =
     (case page_text_lines (lines p) (txt, False) of
        Inl e \<Rightarrow> Inl e
      | Inr (txt', block_data) \<Rightarrow>
          page_text_paragraphs rest (if block_data then txt' @ [0x0A] else txt'))"

text \<open>
  The page is an opaque XML element; \<open>hocr_page_to_word_data\<close> belongs to
  \<open>hocr/parse.py\<close> and is a parameter.
\<close>

definition hocr_page_text :: "('page \<Rightarrow> hocr_paragraph list) \<Rightarrow> 'page \<Rightarrow> error + pystr" where
  "hocr_page_text hocr_page_to_word_data page =
     page_text_paragraphs (hocr_page_to_word_data page) []"


section \<open>hocr_paragraph_text and get_hocr_words\<close>

fun paragraph_text_words :: "hocr_word list \<Rightarrow> pystr \<times> bool \<Rightarrow> pystr \<times> bool" where
  "paragraph_text_words [] (line_words, block_data) = (line_words, block_data)"
| "paragraph_text_words (word # rest) (line_words, block_data) =
     (if confidence word < MIN_WORD_CONF
      then paragraph_text_words rest (line_words, block_data)
      else paragraph_text_words rest (line_words @ word_text word @ ascii '' '', True))"

fun paragraph_text_lines :: "hocr_line list \<Rightarrow> pystr \<times> bool \<Rightarrow> pystr \<times> bool" where
  "paragraph_text_lines [] (data, block_data) = (data, block_data)"
| "paragraph_text_lines (ln # rest) (data, block_data) =
     (case paragraph_text_words (words ln) ([], block_data) of
        (line_words, block_data') \<Rightarrow> paragraph_text_lines rest (data @ line_words, block_data'))"

definition hocr_paragraph_text :: "hocr_paragraph \<Rightarrow> pystr \<times> bool" where
  "hocr_paragraph_text p = paragraph_text_lines (lines p) ([], False)"

fun get_words_line :: "hocr_word list \<Rightarrow> hocr_word list \<Rightarrow> hocr_word list" where
  "get_words_line [] ws = ws"
| "get_words_line (word # rest) ws =
     (if confidence word < MIN_WORD_CONF then get_words_line rest ws
      else get_words_line rest (ws @ [word]))"

fun get_words_lines :: "hocr_line list \<Rightarrow> hocr_word list \<Rightarrow> hocr_word list" where
  "get_words_lines [] ws = ws"
| "get_words_lines (ln # rest) ws = get_words_lines rest (get_words_line (words ln) ws)"

definition get_hocr_words :: "hocr_paragraph \<Rightarrow> hocr_word list" where
  "get_hocr_words p = get_words_lines (lines p) []"


section \<open>hocr_paragraphs\<close>

text \<open>
  The generator is modelled by the list of the tuples it yields when it is run to the
  end. Its local variables \<open>text\<close> and \<open>ps\<close> and the tuples yielded so far make up the
  state of the two loops; \<open>page_no\<close> is carried by the outer loop.
  \<open>hocr_page_get_dimensions\<close> and \<open>hocr_page_to_word_data_fast\<close> belong to
  \<open>hocr/parse.py\<close> and are parameters.
\<close>

type_synonym emission = "hocr_paragraph \<times> pystr \<times> nat \<times> int \<times> int"

record gen_state =
  text_acc :: pystr
  ps :: "hocr_paragraph list"
  yielded :: "emission list"

fun extend_lines :: "hocr_paragraph list \<Rightarrow> hocr_line list \<Rightarrow> hocr_line list" where
  "extend_lines [] new_lines = new_lines"
| "extend_lines (p # rest) new_lines = extend_lines rest (new_lines @ lines p)"

fun paragraphs_loop :: "nat \<Rightarrow> int \<Rightarrow> int \<Rightarrow> hocr_paragraph list \<Rightarrow> gen_state \<Rightarrow> gen_state" where
  "paragraphs_loop page_no page_width page_height [] st = st"
| "paragraphs_loop page_no page_width page_height (p # rest) st =
     (case hocr_paragraph_text p of
        (ptext, ok) \<Rightarrow>
          if \<not> ok then
            paragraphs_loop page_no page_width page_height rest
              (st\<lparr>text_acc := text_acc st @ ptext, ps := ps st @ [p]\<rparr>)
          else
            (let p' = (if length (ps st) \<noteq> 0
                       then \<lparr>lines = extend_lines (ps st @ [p]) []\<rparr>
                       else p)
             in paragraphs_loop page_no page_width page_height rest
                  (st\<lparr>yielded := yielded st @ [(p', ptext, page_no, page_width, page_height)],
                      text_acc := [], ps := []\<rparr>)))"

fun pages_loop ::
  "('page \<Rightarrow> int \<times> int) \<Rightarrow> ('page \<Rightarrow> hocr_paragraph list) \<Rightarrow> 'page list \<Rightarrow> nat \<Rightarrow> gen_state
   \<Rightarrow> gen_state" where
  "pages_loop dims word_data_fast [] page_no st = st"
| "pages_loop dims word_data_fast (hocr_page # rest) page_no st =
     (case dims hocr_page of
        (page_width, page_height) \<Rightarrow>
          pages_loop dims word_data_fast rest (page_no + 1)
            (paragraphs_loop page_no page_width page_height (word_data_fast hocr_page) st))"

definition gen_start :: gen_state where
  "gen_start = \<lparr>text_acc = [], ps = [], yielded = []\<rparr>"

definition hocr_paragraphs ::
  "('page \<Rightarrow> int \<times> int) \<Rightarrow> ('page \<Rightarrow> hocr_paragraph list) \<Rightarrow> 'page list \<Rightarrow> emission list" where
  "hocr_paragraphs hocr_page_get_dimensions hocr_page_to_word_data_fast hocr_iter =
     yielded (pages_loop hocr_page_get_dimensions hocr_page_to_word_data_fast hocr_iter 0
                gen_start)"


section \<open>PageFinder and hocr_get_xml_page_offsets\<close>

text \<open>
  The expat parser calls \<open>StartElementHandler (name, attrs)\<close> and
  \<open>EndElementHandler (name)\<close> in document order. An event carries the value that
  \<open>parser.CurrentByteIndex\<close> has during the call: the offset of the first octet of the
  tag that triggered it.
\<close>

datatype xml_event =
  StartElement pystr "pystr \<rightharpoonup> pystr" nat
| EndElement pystr nat

record PageFinder =
  page_bytes :: "nat list"

definition start_element :: "PageFinder \<Rightarrow> nat \<Rightarrow> pystr \<Rightarrow> (pystr \<rightharpoonup> pystr) \<Rightarrow> PageFinder" where
  "start_element self CurrentByteIndex name attrs =
     (if name = ascii ''div'' \<and> ascii ''class'' \<in> dom attrs
         \<and> the (attrs (ascii ''class'')) = ascii ''ocr_page''
      then self\<lparr>page_bytes := page_bytes self @ [CurrentByteIndex]\<rparr>
      else self)"

definition end_element :: "PageFinder \<Rightarrow> nat \<Rightarrow> pystr \<Rightarrow> PageFinder" where
  "end_element self CurrentByteIndex name =
     (if name = ascii ''body''
      then self\<lparr>page_bytes := page_bytes self @ [CurrentByteIndex]\<rparr>
      else self)"

fun ParseFile :: "xml_event list \<Rightarrow> PageFinder \<Rightarrow> PageFinder" where
  "ParseFile [] h = h"
| "ParseFile (StartElement name attrs i # rest) h = ParseFile rest (start_element h i name attrs)"
| "ParseFile (EndElement name i # rest) h = ParseFile rest (end_element h i name)"

text \<open>
  The argument is what the parser makes of the file: \<open>Inl ExpatError\<close> when
  \<open>p.ParseFile\<close> raises (the exception leaves \<open>hocr_get_xml_page_offsets\<close>), and
  otherwise the events of the whole document. Python's \<open>xs[:-1]\<close> and \<open>xs[1:]\<close>
  are \<open>butlast xs\<close> and \<open>tl xs\<close>, the empty list included.
\<close>

definition hocr_get_xml_page_offsets :: "error + xml_event list \<Rightarrow> error + (nat \<times> nat) list" where
  "hocr_get_xml_page_offsets parsed =
     (case parsed of
        Inl e \<Rightarrow> Inl e
      | Inr events \<Rightarrow>
          (let h = ParseFile events \<lparr>page_bytes = []\<rparr>
           in Inr (zip (butlast (page_bytes h)) (tl (page_bytes h)))))"


section \<open>hocr_get_plaintext_page_offsets\<close>

text \<open>
  \<open>hocr_page_iterator\<close> belongs to \<open>hocr/parse.py\<close>; the pages it yields are the
  argument. The loop carries \<open>cursor\<close> and \<open>page_bytes\<close>; \<open>len (page_text)\<close> is
  the length of a \<open>str\<close>.
\<close>

fun plaintext_loop ::
  "('page \<Rightarrow> hocr_paragraph list) \<Rightarrow> 'page list \<Rightarrow> nat \<Rightarrow> nat list \<Rightarrow> error + nat list" where
  "plaintext_loop word_data [] cursor pbs = Inr pbs"
| "plaintext_loop word_data (page # rest) cursor pbs =
     (case hocr_page_text word_data page of
        Inl e \<Rightarrow> Inl e
      | Inr page_text \<Rightarrow>
          plaintext_loop word_data rest (cursor + length page_text)
            (pbs @ [cursor + length page_text]))"

definition hocr_get_plaintext_page_offsets ::
  "('page \<Rightarrow> hocr_paragraph list) \<Rightarrow> 'page list \<Rightarrow> error + (nat \<times> nat) list" where
  "hocr_get_plaintext_page_offsets hocr_page_to_word_data page_it =
     (case plaintext_loop hocr_page_to_word_data page_it 0 [0] of
        Inl e \<Rightarrow> Inl e
      | Inr pbs \<Rightarrow> Inr (zip (butlast pbs) (tl pbs)))"


section \<open>Notions used in the statements\<close>

text \<open>
  The words of a paragraph in reading order, the text that the words at or above the
  threshold contribute (each followed by one space), and a paragraph with the words below
  the threshold deleted.
\<close>

definition all_words :: "hocr_paragraph \<Rightarrow> hocr_word list" where
  "all_words p = concat (map words (lines p))"

definition kept_text :: "hocr_word list \<Rightarrow> pystr" where
  "kept_text ws =
     concat (map (\<lambda>w. word_text w @ ascii '' '') (filter (\<lambda>w. 75 \<le> confidence w) ws))"

definition drop_low_line :: "hocr_line \<Rightarrow> hocr_line" where
  "drop_low_line ln = ln\<lparr>words := filter (\<lambda>w. 75 \<le> confidence w) (words ln)\<rparr>"

definition drop_low :: "hocr_paragraph \<Rightarrow> hocr_paragraph" where
  "drop_low p = p\<lparr>lines := map drop_low_line (lines p)\<rparr>"

text \<open>
  A paragraph has content when \<open>hocr_paragraph_text\<close> returns \<open>True\<close> as its second
  component. The paragraphs pending after a sequence of paragraphs are the zero-content
  paragraphs after the last one with content.
\<close>

definition has_content :: "hocr_paragraph \<Rightarrow> bool" where
  "has_content p = snd (hocr_paragraph_text p)"

definition trailing :: "hocr_paragraph list \<Rightarrow> hocr_paragraph list" where
  "trailing qs = rev (takeWhile (\<lambda>q. \<not> has_content q) (rev qs))"

text \<open>
  What is yielded for a paragraph with content when \<open>pending\<close> are the paragraphs
  held back before it.
\<close>

definition merge_into :: "hocr_paragraph list \<Rightarrow> hocr_paragraph \<Rightarrow> hocr_paragraph" where
  "merge_into pending p =
     (if pending = [] then p else \<lparr>lines = concat (map lines pending) @ lines p\<rparr>)"

text \<open>
  Paragraphs for the concrete runs: one line with the single word \<open>Hello\<close> at
  confidence 90, one line with a single word below the threshold, one line with the single
  word \<open>World\<close> at confidence 90.
\<close>

definition one_word :: "string \<Rightarrow> int \<Rightarrow> hocr_paragraph" where
  "one_word s c = \<lparr>lines = [\<lparr>words = [\<lparr>word_text = ascii s, confidence = c\<rparr>]\<rparr>]\<rparr>"

definition fixture_P1 :: hocr_paragraph where
  "fixture_P1 = one_word ''Hello'' 90"

definition fixture_P2 :: hocr_paragraph where
  "fixture_P2 = one_word ''x'' 10"

definition fixture_P3 :: hocr_paragraph where
  "fixture_P3 = one_word ''World'' 90"

text \<open>
  A paragraph given by the lines before the line of interest, the words of that line, and
  the lines after it; two words at the boundary of the threshold; and a paragraph whose
  one line mixes words above, below and at the threshold.
\<close>

definition para_with :: "hocr_line list \<Rightarrow> hocr_word list \<Rightarrow> hocr_line list \<Rightarrow> hocr_paragraph" where
  "para_with before ws after = \<lparr>lines = before @ [\<lparr>words = ws\<rparr>] @ after\<rparr>"

definition word_75 :: hocr_word where
  "word_75 = \<lparr>word_text = ascii ''ok'', confidence = 75\<rparr>"

definition word_74 :: hocr_word where
  "word_74 = \<lparr>word_text = ascii ''no'', confidence = 74\<rparr>"

definition word_100 :: hocr_word where
  "word_100 = \<lparr>word_text = ascii ''ab'', confidence = 100\<rparr>"

definition mixed_para :: hocr_paragraph where
  "mixed_para = para_with [] [word_100, word_74, word_75] []"

text \<open>
  A paragraph with the single word \<open>U+00E9\<close> (e with acute accent, two octets in
  UTF-8) at confidence 100, and the events of three small documents with the byte index
  of each tag: two pages inside a body, the first with a text area inside; a body without
  pages; and a page that is not inside a body.
\<close>

definition accent_para :: hocr_paragraph where
  "accent_para = \<lparr>lines = [\<lparr>words = [\<lparr>word_text = [0xE9], confidence = 100\<rparr>]\<rparr>]\<rparr>"

definition page_attrs :: "pystr \<rightharpoonup> pystr" where
  "page_attrs = [ascii ''class'' \<mapsto> ascii ''ocr_page'']"

definition area_attrs :: "pystr \<rightharpoonup> pystr" where
  "area_attrs = [ascii ''class'' \<mapsto> ascii ''ocr_carea'']"

definition two_page_events :: "xml_event list" where
  "two_page_events =
     [StartElement (ascii ''html'') Map.empty 0, StartElement (ascii ''body'') Map.empty 6,
      StartElement (ascii ''div'') page_attrs 12, StartElement (ascii ''div'') area_attrs 34,
      EndElement (ascii ''div'') 57, EndElement (ascii ''div'') 63,
      StartElement (ascii ''div'') page_attrs 69, EndElement (ascii ''div'') 91,
      EndElement (ascii ''body'') 97, EndElement (ascii ''html'') 104]"

definition no_page_events :: "xml_event list" where
  "no_page_events =
     [StartElement (ascii ''html'') Map.empty 0, StartElement (ascii ''body'') Map.empty 6,
      EndElement (ascii ''body'') 12, EndElement (ascii ''html'') 19]"

definition no_body_events :: "xml_event list" where
  "no_body_events = [StartElement (ascii ''div'') page_attrs 0, EndElement (ascii ''div'') 22]"

text \<open>Page dimensions that differ from page to page, for the concrete runs.\<close>

definition page_dims :: "hocr_paragraph list \<Rightarrow> int \<times> int" where
  "page_dims pg = (int (length pg), 7)"

text \<open>The code points that \<open>str.encode('utf-8')\<close> accepts.\<close>

definition encodable :: "nat \<Rightarrow> bool" where
  "encodable c \<longleftrightarrow> c < 0xD800 \<or> (0xDFFF < c \<and> c < 0x110000)"

text \<open>
  The page boundary markers of a document, read off its events: the byte index of every
  start of a \<open>div\<close> of class \<open>ocr_page\<close> and of every end of a \<open>body\<close>.
\<close>

fun is_page_start :: "xml_event \<Rightarrow> bool" where
  "is_page_start (StartElement name attrs i) \<longleftrightarrow>
     name = ascii ''div'' \<and> attrs (ascii ''class'') = Some (ascii ''ocr_page'')"
| "is_page_start (EndElement name i) \<longleftrightarrow> False"

fun is_body_end :: "xml_event \<Rightarrow> bool" where
  "is_body_end (StartElement name attrs i) \<longleftrightarrow> False"
| "is_body_end (EndElement name i) \<longleftrightarrow> name = ascii ''body''"

fun byte_index :: "xml_event \<Rightarrow> nat" where
  "byte_index (StartElement name attrs i) = i"
| "byte_index (EndElement name i) = i"

definition markers :: "xml_event list \<Rightarrow> nat list" where
  "markers events = map byte_index (filter (\<lambda>ev. is_page_start ev \<or> is_body_end ev) events)"

definition page_starts :: "xml_event list \<Rightarrow> nat list" where
  "page_starts events = map byte_index (filter is_page_start events)"


section \<open>UTF-8: decoding undoes encoding\<close>

lemma split_64: "(d::nat) div 0x40 * 0x40 + d mod 0x40 = d"
  by simp

lemma recombine_3: "(c::nat) div 0x1000 * 0x1000 + (c div 0x40) mod 0x40 * 0x40 + c mod 0x40 = c"
proof -
  define d where "d = c div 0x40"
  define e where "e = d div 0x40"
  have e: "c div 0x1000 = e" by (simp add: d_def e_def div_mult2_eq)
  have "e * 0x1000 + d mod 0x40 * 0x40 = (e * 0x40 + d mod 0x40) * 0x40"
    by (simp add: algebra_simps)
  also have "e * 0x40 + d mod 0x40 = d" unfolding e_def by (rule split_64)
  finally have "e * 0x1000 + d mod 0x40 * 0x40 + c mod 0x40 = d * 0x40 + c mod 0x40" by simp
  also have "\<dots> = c" unfolding d_def by (rule split_64)
  finally show ?thesis unfolding e d_def .
qed

lemma recombine_4: "(c::nat) div 0x40000 * 0x40000 + (c div 0x1000) mod 0x40 * 0x1000
           + (c div 0x40) mod 0x40 * 0x40 + c mod 0x40 = c"
proof -
  define d where "d = c div 0x1000"
  have e: "c div 0x40000 = d div 0x40" by (simp add: d_def div_mult2_eq)
  have distr: "a * 0x40000 + b * 0x1000 = (a * 0x40 + b) * 0x1000" for a b :: nat
    by (simp add: algebra_simps)
  have "d div 0x40 * 0x40000 + d mod 0x40 * 0x1000 = d * 0x1000"
    by (simp only: distr split_64)
  then have "c div 0x40000 * 0x40000 + (c div 0x1000) mod 0x40 * 0x1000 = c div 0x1000 * 0x1000"
    unfolding e d_def .
  then show ?thesis by (simp only: recombine_3)
qed

lemma lead_3_bound: "(c::nat) < 0x10000 \<Longrightarrow> c div 0x1000 < 0x10"
  by (simp add: less_mult_imp_div_less)
lemma lead_4_bound: "(c::nat) < 0x110000 \<Longrightarrow> c div 0x40000 < 5"
  by (simp add: less_mult_imp_div_less)
lemma lead_2_upper: "(c::nat) < 0x800 \<Longrightarrow> c div 0x40 < 0x20"
  by (simp add: less_mult_imp_div_less)
lemma lead_2_lower: "0x80 \<le> (c::nat) \<Longrightarrow> 2 \<le> c div 0x40"
  by (simp add: le_div_geq)

lemma is_cont_tail: "is_cont (0x80 + x mod 0x40)"
  by (simp add: is_cont_def)

lemma decode_1: "c < 0x80 \<Longrightarrow> utf8_decode (c # rest) = decoded c (utf8_decode rest)"
  by simp

lemma decode_2_gen:
  "0xC2 \<le> b0 \<Longrightarrow> b0 < 0xE0 \<Longrightarrow> is_cont b1 \<Longrightarrow> c = (b0 - 0xC0) * 0x40 + (b1 - 0x80)
   \<Longrightarrow> utf8_decode (b0 # b1 # rest) = decoded c (utf8_decode rest)"
  by simp

lemma decode_3_gen:
  "0xE0 \<le> b0 \<Longrightarrow> b0 < 0xF0 \<Longrightarrow> is_cont b1 \<Longrightarrow> is_cont b2
   \<Longrightarrow> c = (b0 - 0xE0) * 0x1000 + (b1 - 0x80) * 0x40 + (b2 - 0x80)
   \<Longrightarrow> 0x800 \<le> c \<Longrightarrow> \<not> (0xD800 \<le> c \<and> c \<le> 0xDFFF)
   \<Longrightarrow> utf8_decode (b0 # b1 # b2 # rest) = decoded c (utf8_decode rest)"
  by (simp add: Let_def)

lemma decode_4_gen:
  "0xF0 \<le> b0 \<Longrightarrow> b0 < 0xF5 \<Longrightarrow> is_cont b1 \<Longrightarrow> is_cont b2 \<Longrightarrow> is_cont recombine_3
   \<Longrightarrow> c = (b0 - 0xF0) * 0x40000 + (b1 - 0x80) * 0x1000 + (b2 - 0x80) * 0x40 + (recombine_3 - 0x80)
   \<Longrightarrow> 0x10000 \<le> c \<Longrightarrow> c < 0x110000
   \<Longrightarrow> utf8_decode (b0 # b1 # b2 # recombine_3 # rest) = decoded c (utf8_decode rest)"
  by (simp add: Let_def)

lemma decode_2:
  assumes "0x80 \<le> c" "c < 0x800"
  shows "utf8_decode ([0xC0 + c div 0x40, 0x80 + c mod 0x40] @ rest) = decoded c (utf8_decode rest)"
proof -
  have "c = (0xC0 + c div 0x40 - 0xC0) * 0x40 + (0x80 + c mod 0x40 - 0x80)"
    by (simp only: add_diff_cancel_left' split_64)
  moreover have "0xC2 \<le> 0xC0 + c div 0x40" using lead_2_lower[OF assms(1)] by simp
  moreover have "0xC0 + c div 0x40 < 0xE0" using lead_2_upper[OF assms(2)] by simp
  ultimately show ?thesis
    using decode_2_gen[OF _ _ is_cont_tail, of "0xC0 + c div 0x40" c c rest] by simp
qed

lemma decode_3:
  assumes "0x800 \<le> c" "c < 0x10000" "\<not> (0xD800 \<le> c \<and> c \<le> 0xDFFF)"
  shows "utf8_decode ([0xE0 + c div 0x1000, 0x80 + (c div 0x40) mod 0x40, 0x80 + c mod 0x40] @ rest)
         = decoded c (utf8_decode rest)"
proof -
  have "c = (0xE0 + c div 0x1000 - 0xE0) * 0x1000 + (0x80 + (c div 0x40) mod 0x40 - 0x80) * 0x40
            + (0x80 + c mod 0x40 - 0x80)"
    by (simp only: add_diff_cancel_left' recombine_3)
  moreover have "0xE0 + c div 0x1000 < 0xF0" using lead_3_bound[OF assms(2)] by simp
  moreover have "(0xE0::nat) \<le> 0xE0 + c div 0x1000" by simp
  ultimately show ?thesis
    using decode_3_gen[OF _ _ is_cont_tail is_cont_tail _ assms(1) assms(3),
                       of "0xE0 + c div 0x1000" "c div 0x40" c rest] by simp
qed

lemma decode_4:
  assumes "0x10000 \<le> c" "c < 0x110000"
  shows "utf8_decode ([0xF0 + c div 0x40000, 0x80 + (c div 0x1000) mod 0x40,
                       0x80 + (c div 0x40) mod 0x40, 0x80 + c mod 0x40] @ rest)
         = decoded c (utf8_decode rest)"
proof -
  have "c = (0xF0 + c div 0x40000 - 0xF0) * 0x40000 + (0x80 + (c div 0x1000) mod 0x40 - 0x80) * 0x1000
            + (0x80 + (c div 0x40) mod 0x40 - 0x80) * 0x40 + (0x80 + c mod 0x40 - 0x80)"
    by (simp only: add_diff_cancel_left' recombine_4)
  moreover have "0xF0 + c div 0x40000 < 0xF5" using lead_4_bound[OF assms(2)] by simp
  moreover have "(0xF0::nat) \<le> 0xF0 + c div 0x40000" by simp
  ultimately show ?thesis
    using decode_4_gen[OF _ _ is_cont_tail is_cont_tail is_cont_tail _ assms(1) assms(2),
                       of "0xF0 + c div 0x40000" "c div 0x1000" "c div 0x40" c rest] by simp
qed

lemma decode_encode_char:
  assumes "encode_char c = Inr bs"
  shows "utf8_decode (bs @ rest) = decoded c (utf8_decode rest)"
proof -
  consider (one) "c < 0x80" | (two) "0x80 \<le> c" "c < 0x800"
    | (three) "0x800 \<le> c" "c < 0x10000" | (four) "0x10000 \<le> c" "c < 0x110000"
    | (out) "0x110000 \<le> c"
    by linarith
  then show ?thesis
  proof cases
    case one
    with assms have "bs = [c]" by (simp add: encode_char_def)
    with one show ?thesis by (simp only: append_Cons append_Nil decode_1)
  next
    case two
    with assms have bs: "bs = [0xC0 + c div 0x40, 0x80 + c mod 0x40]"
      by (simp add: encode_char_def)
    show ?thesis unfolding bs by (rule decode_2[OF two])
  next
    case three
    with assms have ns: "\<not> (0xD800 \<le> c \<and> c \<le> 0xDFFF)"
      by (auto simp: encode_char_def)
    with three assms
    have bs: "bs = [0xE0 + c div 0x1000, 0x80 + (c div 0x40) mod 0x40, 0x80 + c mod 0x40]"
      by (simp add: encode_char_def)
    show ?thesis unfolding bs by (rule decode_3[OF three ns])
  next
    case four
    with assms
    have bs: "bs = [0xF0 + c div 0x40000, 0x80 + (c div 0x1000) mod 0x40,
                    0x80 + (c div 0x40) mod 0x40, 0x80 + c mod 0x40]"
      by (simp add: encode_char_def)
    show ?thesis unfolding bs by (rule decode_4[OF four])
  next
    case out
    with assms show ?thesis by (simp add: encode_char_def)
  qed
qed

lemma utf8_roundtrip: "utf8_encode s = Inr bs \<Longrightarrow> utf8_decode bs = Inr s"
proof (induction s arbitrary: bs)
  case Nil
  then show ?case by simp
next
  case (Cons c cs)
  from Cons.prems obtain b r where b: "encode_char c = Inr b" and r: "utf8_encode cs = Inr r"
    and bs: "bs = b @ r"
    by (auto split: sum.splits)
  from Cons.IH[OF r] have "utf8_decode r = Inr cs" .
  then show ?case unfolding bs by (simp only: decode_encode_char[OF b] decoded_def sum.case)
qed

lemma encode_char_nonempty: "encode_char c = Inr bs \<Longrightarrow> bs \<noteq> []"
  by (auto simp: encode_char_def split: if_splits)

lemma utf8_encode_empty_iff: "utf8_encode s = Inr [] \<longleftrightarrow> s = []"
  by (cases s) (auto split: sum.splits dest: encode_char_nonempty)


section \<open>The confidence filter\<close>

lemma kept_text_Nil: "kept_text [] = []"
  by (simp add: kept_text_def)

lemma kept_text_Cons:
  "kept_text (w # ws) = (if 75 \<le> confidence w then word_text w @ ascii '' '' @ kept_text ws else kept_text ws)"
  by (simp add: kept_text_def)

lemma kept_text_append: "kept_text (xs @ ys) = kept_text xs @ kept_text ys"
  by (simp add: kept_text_def)

lemma page_text_words_eq:
  "page_text_words ws (lw, bd) = (lw @ kept_text ws, bd \<or> (\<exists>w \<in> set ws. 75 \<le> confidence w))"
  by (induction ws arbitrary: lw bd) (auto simp: kept_text_def MIN_WORD_CONF_def)

lemma paragraph_text_words_eq:
  "paragraph_text_words ws (lw, bd) = (lw @ kept_text ws, bd \<or> (\<exists>w \<in> set ws. 75 \<le> confidence w))"
  by (induction ws arbitrary: lw bd) (auto simp: kept_text_def MIN_WORD_CONF_def)

lemma paragraph_text_lines_eq:
  "paragraph_text_lines ls (data, bd) =
     (data @ kept_text (concat (map words ls)), bd \<or> (\<exists>w \<in> set (concat (map words ls)). 75 \<le> confidence w))"
  by (induction ls arbitrary: data bd) (auto simp: paragraph_text_words_eq kept_text_append kept_text_Nil)

lemma hocr_paragraph_text_eq:
  "hocr_paragraph_text p = (kept_text (all_words p), \<exists>w \<in> set (all_words p). 75 \<le> confidence w)"
  by (simp add: hocr_paragraph_text_def paragraph_text_lines_eq all_words_def)

lemma get_words_line_eq: "get_words_line ws acc = acc @ filter (\<lambda>w. 75 \<le> confidence w) ws"
  by (induction ws arbitrary: acc) (auto simp: MIN_WORD_CONF_def)

lemma get_words_lines_eq:
  "get_words_lines ls acc = acc @ filter (\<lambda>w. 75 \<le> confidence w) (concat (map words ls))"
  by (induction ls arbitrary: acc) (auto simp: get_words_line_eq)

lemma get_hocr_words_eq: "get_hocr_words p = filter (\<lambda>w. 75 \<le> confidence w) (all_words p)"
  by (simp add: get_hocr_words_def get_words_lines_eq all_words_def)

lemma kept_text_empty_iff: "kept_text ws = [] \<longleftrightarrow> \<not> (\<exists>w \<in> set ws. 75 \<le> confidence w)"
  by (induction ws) (auto simp: kept_text_Nil kept_text_Cons ascii_def)

lemma kept_text_filter: "kept_text (filter (\<lambda>w. 75 \<le> confidence w) ws) = kept_text ws"
  by (simp add: kept_text_def)

lemma page_text_words_drop_low:
  "page_text_words (words (drop_low_line ln)) acc = page_text_words (words ln) acc"
  by (cases acc) (auto simp: page_text_words_eq drop_low_line_def kept_text_filter)

lemma page_text_lines_drop_low:
  "page_text_lines (map drop_low_line ls) acc = page_text_lines ls acc"
proof (induction ls arbitrary: acc)
  case Nil
  show ?case by simp
next
  case (Cons ln ls)
  obtain tx bd where acc: "acc = (tx, bd)" by (cases acc)
  show ?case unfolding acc
    by (simp add: page_text_words_drop_low Cons.IH split: prod.splits sum.splits)
qed

lemma page_text_paragraphs_drop_low:
  "page_text_paragraphs (map drop_low paras) tx = page_text_paragraphs paras tx"
proof (induction paras arbitrary: tx)
  case Nil
  show ?case by simp
next
  case (Cons p paras)
  have "lines (drop_low p) = map drop_low_line (lines p)" by (simp add: drop_low_def)
  then show ?case by (simp add: page_text_lines_drop_low Cons.IH split: sum.splits prod.splits)
qed

lemma hocr_page_text_drop_low:
  "hocr_page_text (\<lambda>pg. map drop_low (wd pg)) page = hocr_page_text wd page"
  by (simp add: hocr_page_text_def page_text_paragraphs_drop_low)


section \<open>The loops of hocr_paragraphs\<close>

lemma extend_lines_eq: "extend_lines xs acc = acc @ concat (map lines xs)"
  by (induction xs arbitrary: acc) auto

lemma has_content_iff: "has_content p \<longleftrightarrow> (\<exists>w \<in> set (all_words p). 75 \<le> confidence w)"
  by (simp add: has_content_def hocr_paragraph_text_eq)

lemma text_nonempty_iff: "fst (hocr_paragraph_text p) \<noteq> [] \<longleftrightarrow> has_content p"
  by (simp add: has_content_iff hocr_paragraph_text_eq kept_text_empty_iff)

lemma zero_content_text: "\<not> has_content p \<Longrightarrow> hocr_paragraph_text p = ([], False)"
  using text_nonempty_iff[of p] by (simp add: has_content_def prod_eq_iff)

lemma paragraphs_loop_zero:
  assumes "\<not> has_content p"
  shows "paragraphs_loop n w h (p # rest) st = paragraphs_loop n w h rest (st\<lparr>ps := ps st @ [p]\<rparr>)"
  by (simp add: zero_content_text[OF assms])

lemma paragraphs_loop_content:
  assumes "has_content p"
  shows "paragraphs_loop n w h (p # rest) st =
         paragraphs_loop n w h rest
           (st\<lparr>yielded := yielded st @ [(merge_into (ps st) p, fst (hocr_paragraph_text p), n, w, h)],
               text_acc := [], ps := []\<rparr>)"
proof -
  obtain t where t: "hocr_paragraph_text p = (t, True)"
    using assms by (cases "hocr_paragraph_text p") (simp add: has_content_def)
  show ?thesis
    by (simp add: t merge_into_def extend_lines_eq Let_def)
qed

lemma paragraphs_loop_append:
  "paragraphs_loop n w h (xs @ ys) st = paragraphs_loop n w h ys (paragraphs_loop n w h xs st)"
proof (induction xs arbitrary: st)
  case Nil
  show ?case by simp
next
  case (Cons x xs)
  show ?case
  proof (cases "has_content x")
    case True
    show ?thesis
      unfolding append_Cons paragraphs_loop_content[OF True] by (rule Cons.IH)
  next
    case False
    show ?thesis
      unfolding append_Cons paragraphs_loop_zero[OF False] by (rule Cons.IH)
  qed
qed

lemma pages_loop_append:
  "pages_loop dims wd (xs @ ys) k st = pages_loop dims wd ys (k + length xs) (pages_loop dims wd xs k st)"
  by (induction xs arbitrary: k st) (auto split: prod.splits)


lemma text_acc_paragraphs_loop:
  "text_acc st = [] \<Longrightarrow> text_acc (paragraphs_loop n w h qs st) = []"
proof (induction qs arbitrary: st)
  case Nil
  then show ?case by simp
next
  case (Cons q qs)
  show ?case
  proof (cases "has_content q")
    case True
    show ?thesis unfolding paragraphs_loop_content[OF True] by (rule Cons.IH) simp
  next
    case False
    show ?thesis unfolding paragraphs_loop_zero[OF False]
      by (rule Cons.IH) (simp add: Cons.prems)
  qed
qed

lemma text_acc_pages_loop:
  "text_acc st = [] \<Longrightarrow> text_acc (pages_loop dims wd pgs k st) = []"
  by (induction pgs arbitrary: k st) (auto split: prod.splits simp: text_acc_paragraphs_loop)

lemma yielded_paragraphs_loop:
  "\<exists>ext. yielded (paragraphs_loop n w h qs st) = yielded st @ ext"
proof (induction qs arbitrary: st)
  case Nil
  show ?case by simp
next
  case (Cons q qs)
  show ?case
  proof (cases "has_content q")
    case True
    show ?thesis unfolding paragraphs_loop_content[OF True]
      using Cons.IH[of "st\<lparr>yielded := yielded st @ [(merge_into (ps st) q, fst (hocr_paragraph_text q), n, w, h)],
               text_acc := [], ps := []\<rparr>"] by auto
  next
    case False
    show ?thesis unfolding paragraphs_loop_zero[OF False]
      using Cons.IH[of "st\<lparr>ps := ps st @ [q]\<rparr>"] by auto
  qed
qed

lemma yielded_pages_loop:
  "\<exists>ext. yielded (pages_loop dims wd pgs k st) = yielded st @ ext"
proof (induction pgs arbitrary: k st)
  case Nil
  show ?case by simp
next
  case (Cons pg pgs)
  obtain w h where d: "dims pg = (w, h)" by (cases "dims pg")
  obtain e1 where e1: "yielded (paragraphs_loop k w h (wd pg) st) = yielded st @ e1"
    using yielded_paragraphs_loop by blast
  obtain e2 where "yielded (pages_loop dims wd pgs (k + 1) (paragraphs_loop k w h (wd pg) st))
                   = yielded (paragraphs_loop k w h (wd pg) st) @ e2"
    using Cons.IH by blast
  then show ?case by (simp add: d e1)
qed

lemma count_paragraphs_loop:
  "length (yielded (paragraphs_loop n w h qs st)) = length (yielded st) + length (filter has_content qs)"
proof (induction qs arbitrary: st)
  case Nil
  show ?case by simp
next
  case (Cons q qs)
  show ?case
  proof (cases "has_content q")
    case True
    show ?thesis unfolding paragraphs_loop_content[OF True] Cons.IH using True by simp
  next
    case False
    show ?thesis unfolding paragraphs_loop_zero[OF False] Cons.IH using False by simp
  qed
qed

lemma count_pages_loop:
  "length (yielded (pages_loop dims wd pgs k st))
   = length (yielded st) + length (filter has_content (concat (map wd pgs)))"
  by (induction pgs arbitrary: k st) (auto split: prod.splits simp: count_paragraphs_loop)

lemma trailing_Nil: "trailing [] = []"
  by (simp add: trailing_def)

lemma trailing_snoc: "trailing (qs @ [q]) = (if has_content q then [] else trailing qs @ [q])"
  by (simp add: trailing_def)

lemma trailing_append:
  "trailing (xs @ ys) = (if \<exists>q \<in> set ys. has_content q then trailing ys else trailing xs @ ys)"
  by (induction ys rule: rev_induct)
     (auto simp: trailing_snoc simp flip: append_assoc)

lemma trailing_all_zero: "\<forall>q \<in> set qs. \<not> has_content q \<Longrightarrow> trailing qs = qs"
proof -
  assume "\<forall>q \<in> set qs. \<not> has_content q"
  then have tw: "takeWhile (\<lambda>q. \<not> has_content q) (rev qs) = rev qs"
    by (simp add: takeWhile_eq_all_conv)
  show ?thesis unfolding trailing_def tw by (rule rev_rev_ident)
qed

lemma ps_paragraphs_loop:
  "ps (paragraphs_loop n w h qs st)
   = (if \<exists>q \<in> set qs. has_content q then trailing qs else ps st @ qs)"
proof (induction qs arbitrary: st rule: rev_induct)
  case Nil
  show ?case by simp
next
  case (snoc q qs)
  show ?case
  proof (cases "has_content q")
    case True
    have "paragraphs_loop n w h [q] s = s\<lparr>yielded := yielded s @ [(merge_into (ps s) q, fst (hocr_paragraph_text q), n, w, h)],
               text_acc := [], ps := []\<rparr>" for s
      unfolding paragraphs_loop_content[OF True] by simp
    then show ?thesis using True by (simp add: paragraphs_loop_append trailing_snoc)
  next
    case False
    have "paragraphs_loop n w h [q] s = s\<lparr>ps := ps s @ [q]\<rparr>" for s
      unfolding paragraphs_loop_zero[OF False] by simp
    then show ?thesis using False by (simp add: paragraphs_loop_append trailing_snoc snoc.IH)
  qed
qed

lemma ps_pages_loop:
  "ps (pages_loop dims wd pgs k st)
   = (if \<exists>q \<in> set (concat (map wd pgs)). has_content q
      then trailing (concat (map wd pgs)) else ps st @ concat (map wd pgs))"
proof (induction pgs arbitrary: k st rule: rev_induct)
  case Nil
  show ?case by simp
next
  case (snoc pg pgs)
  obtain w h where d: "dims pg = (w, h)" by (cases "dims pg")
  have "pages_loop dims wd (pgs @ [pg]) k st
        = paragraphs_loop (k + length pgs) w h (wd pg) (pages_loop dims wd pgs k st)"
    by (simp add: pages_loop_append d)
  then show ?case
    by (auto simp: ps_paragraphs_loop snoc.IH trailing_append)
qed

lemma paragraphs_loop_single_content:
  assumes "has_content p"
  shows "paragraphs_loop n w h (qs @ [p] @ bs) st =
         paragraphs_loop n w h bs
           ((paragraphs_loop n w h qs st)
              \<lparr>yielded := yielded (paragraphs_loop n w h qs st)
                            @ [(merge_into (ps (paragraphs_loop n w h qs st)) p,
                                fst (hocr_paragraph_text p), n, w, h)],
               text_acc := [], ps := []\<rparr>)"
  by (simp only: paragraphs_loop_append append_Cons append_Nil paragraphs_loop_content[OF assms])

lemma emission_at:
  assumes pgs: "pgs = pre @ [B] @ post"
    and wdB: "wd B = qs @ [p] @ bs"
    and p: "has_content p"
  shows "length (filter has_content (concat (map wd pre) @ qs)) < length (hocr_paragraphs dims wd pgs)
         \<and> hocr_paragraphs dims wd pgs ! length (filter has_content (concat (map wd pre) @ qs))
           = (merge_into (trailing (concat (map wd pre) @ qs)) p, fst (hocr_paragraph_text p),
              length pre, fst (dims B), snd (dims B))"
proof -
  define st1 where "st1 = pages_loop dims wd pre 0 gen_start"
  define st2 where "st2 = paragraphs_loop (length pre) (fst (dims B)) (snd (dims B)) qs st1"
  define tup where "tup = (merge_into (ps st2) p, fst (hocr_paragraph_text p), length pre,
                           fst (dims B), snd (dims B))"
  define st3 where "st3 = st2\<lparr>yielded := yielded st2 @ [tup], text_acc := [], ps := []\<rparr>"
  define st4 where "st4 = paragraphs_loop (length pre) (fst (dims B)) (snd (dims B)) bs st3"
  have y1: "yielded gen_start = []" and p1: "ps gen_start = []" by (simp_all add: gen_start_def)
  have len1: "length (yielded st1) = length (filter has_content (concat (map wd pre)))"
    unfolding st1_def count_pages_loop y1 by simp
  have ps1: "ps st1 = trailing (concat (map wd pre))"
    unfolding st1_def ps_pages_loop p1 by (simp add: trailing_all_zero)
  have len2: "length (yielded st2) = length (filter has_content (concat (map wd pre) @ qs))"
    unfolding st2_def count_paragraphs_loop len1 by simp
  have ps2: "ps st2 = trailing (concat (map wd pre) @ qs)"
    unfolding st2_def ps_paragraphs_loop ps1 by (simp add: trailing_append)
  have B: "paragraphs_loop (length pre) (fst (dims B)) (snd (dims B)) (wd B) st1 = st4"
    unfolding wdB paragraphs_loop_single_content[OF p] st4_def st3_def tup_def st2_def ..
  have "pages_loop dims wd pgs 0 gen_start = pages_loop dims wd post (length pre + 1) st4"
    unfolding pgs pages_loop_append st1_def[symmetric]
    by (simp add: B[symmetric] split: prod.splits)
  moreover obtain e1 where "yielded (pages_loop dims wd post (length pre + 1) st4) = yielded st4 @ e1"
    using yielded_pages_loop by blast
  moreover obtain e2 where "yielded st4 = yielded st3 @ e2"
    unfolding st4_def using yielded_paragraphs_loop by blast
  ultimately have out: "hocr_paragraphs dims wd pgs = yielded st2 @ [tup] @ e2 @ e1"
    by (simp add: hocr_paragraphs_def st3_def)
  have "hocr_paragraphs dims wd pgs ! length (yielded st2) = tup"
    unfolding out by (simp add: nth_append)
  moreover have "length (yielded st2) < length (hocr_paragraphs dims wd pgs)"
    unfolding out by simp
  ultimately show ?thesis unfolding len2 tup_def ps2 by simp
qed

lemma lines_paragraphs_loop:
  "concat (map (\<lambda>t. lines (fst t)) (yielded (paragraphs_loop n w h qs st)))
     @ concat (map lines (ps (paragraphs_loop n w h qs st)))
   = concat (map (\<lambda>t. lines (fst t)) (yielded st)) @ concat (map lines (ps st))
     @ concat (map lines qs)"
proof (induction qs arbitrary: st)
  case Nil
  show ?case by simp
next
  case (Cons q qs)
  show ?case
  proof (cases "has_content q")
    case True
    show ?thesis unfolding paragraphs_loop_content[OF True] Cons.IH
      by (simp add: merge_into_def)
  next
    case False
    show ?thesis unfolding paragraphs_loop_zero[OF False] Cons.IH by simp
  qed
qed

lemma lines_pages_loop:
  "concat (map (\<lambda>t. lines (fst t)) (yielded (pages_loop dims wd pgs k st)))
     @ concat (map lines (ps (pages_loop dims wd pgs k st)))
   = concat (map (\<lambda>t. lines (fst t)) (yielded st)) @ concat (map lines (ps st))
     @ concat (map lines (concat (map wd pgs)))"
proof (induction pgs arbitrary: k st)
  case Nil
  show ?case by simp
next
  case (Cons pg pgs)
  obtain w h where d: "dims pg = (w, h)" by (cases "dims pg")
  show ?case by (simp add: d Cons.IH lines_paragraphs_loop)
qed

lemma fixture_content:
  "has_content fixture_P1" "\<not> has_content fixture_P2" "has_content fixture_P3"
  by (simp_all add: has_content_def hocr_paragraph_text_def fixture_P1_def fixture_P2_def
        fixture_P3_def one_word_def MIN_WORD_CONF_def)

lemma fixture_text:
  "fst (hocr_paragraph_text fixture_P1) = ascii ''Hello ''"
  "fst (hocr_paragraph_text fixture_P3) = ascii ''World ''"
  by (simp_all add: hocr_paragraph_text_def fixture_P1_def fixture_P3_def one_word_def
        MIN_WORD_CONF_def ascii_def)

lemma trailing_after_content:
  assumes "older = [] \<or> has_content (last older)" "\<forall>z \<in> set zs. \<not> has_content z"
  shows "trailing (older @ zs) = zs"
proof -
  have "trailing older = []"
  proof (cases "older = []")
    case True
    then show ?thesis by (simp add: trailing_Nil)
  next
    case False
    then have "older = butlast older @ [last older]" by simp
    then have "trailing older = trailing (butlast older @ [last older])" by simp
    also have "\<dots> = []" using assms(1) False by (simp only: trailing_snoc) simp
    finally show ?thesis .
  qed
  then show ?thesis using assms(2) by (simp add: trailing_append)
qed


section \<open>Properties of the reconstruction\<close>

text \<open>
  C9. For every paragraph, the flag returned by \<open>hocr_paragraph_text\<close> is true if and
  only if the returned text is non-empty. Hence a paragraph held back for merging has the
  empty text, and the accumulator \<open>text\<close> of \<open>hocr_paragraphs\<close> is empty after any
  number of pages followed by any number of paragraphs of the next page.
\<close>

theorem paragraph_text_flag_iff_nonempty:
  "(snd (hocr_paragraph_text p) \<longleftrightarrow> fst (hocr_paragraph_text p) \<noteq> [])
   \<and> text_acc (paragraphs_loop n w h qs (pages_loop dims wd pgs 0 gen_start)) = []"
proof
  show "snd (hocr_paragraph_text p) \<longleftrightarrow> fst (hocr_paragraph_text p) \<noteq> []"
    using text_nonempty_iff[of p] by (simp add: has_content_def)
  have "text_acc (pages_loop dims wd pgs 0 gen_start) = []"
    by (rule text_acc_pages_loop) (simp add: gen_start_def)
  then show "text_acc (paragraphs_loop n w h qs (pages_loop dims wd pgs 0 gen_start)) = []"
    by (rule text_acc_paragraphs_loop)
qed

theorem paragraph_text_flag_iff_nonempty_witness:
  "hocr_paragraph_text fixture_P2 = ([], False)
   \<and> snd (hocr_paragraph_text fixture_P3) \<and> fst (hocr_paragraph_text fixture_P3) \<noteq> []
   \<and> text_acc (paragraphs_loop 1 10 20 [fixture_P2]
         (pages_loop (\<lambda>pg. (10, 20)) id [[fixture_P1, fixture_P2]] 0 gen_start)) = []"
proof -
  have a: "\<not> snd (hocr_paragraph_text fixture_P2)"
    by (simp add: fixture_P2_def one_word_def hocr_paragraph_text_def MIN_WORD_CONF_def)
  have b: "snd (hocr_paragraph_text fixture_P3)"
    by (simp add: fixture_P3_def one_word_def hocr_paragraph_text_def MIN_WORD_CONF_def)
  note c = paragraph_text_flag_iff_nonempty[of fixture_P2 1 10 20 "[fixture_P2]"
      "\<lambda>pg. (10, 20)" id "[[fixture_P1, fixture_P2]]"]
  note d = paragraph_text_flag_iff_nonempty[of fixture_P3 0 0 0 "[]" "\<lambda>pg. (0, 0)" id "[]"]
  from a c have "fst (hocr_paragraph_text fixture_P2) = []" by blast
  with a have "hocr_paragraph_text fixture_P2 = ([], False)" by (simp add: prod_eq_iff)
  moreover from b d have "fst (hocr_paragraph_text fixture_P3) \<noteq> []" by blast
  ultimately show ?thesis using b c by blast
qed

text \<open>
  C8. Let a paragraph \<open>p\<close> with content be met on page \<open>B\<close>, and let the paragraphs
  before it, over all earlier pages and the earlier part of \<open>B\<close>, be \<open>older @ zs\<close>,
  where \<open>zs\<close> are zero-content paragraphs and \<open>older\<close> is empty or ends with a
  paragraph with content: \<open>zs\<close> are the paragraphs pending when \<open>p\<close> is met. Then the
  paragraph yielded for \<open>p\<close> has as its lines the lines of the paragraphs of \<open>zs\<close>, in
  order, followed by the lines of \<open>p\<close>. Over the whole run, the lines of the yielded
  paragraphs followed by the lines of the paragraphs still pending at the end are the lines
  of the source paragraphs, each once and in the original order.
\<close>

theorem merged_lines_in_order:
  assumes "pgs = pre @ [B] @ post"
    and "wd B = qs @ [p] @ bs"
    and "has_content p"
    and "concat (map wd pre) @ qs = older @ zs"
    and "older = [] \<or> has_content (last older)"
    and "\<forall>z \<in> set zs. \<not> has_content z"
  shows "length (filter has_content older) < length (hocr_paragraphs dims wd pgs)
         \<and> lines (fst (hocr_paragraphs dims wd pgs ! length (filter has_content older)))
             = concat (map lines zs) @ lines p
         \<and> concat (map (\<lambda>t. lines (fst t)) (hocr_paragraphs dims wd pgs))
             @ concat (map lines (trailing (concat (map wd pgs))))
             = concat (map lines (concat (map wd pgs)))"
proof -
  have tr: "trailing (concat (map wd pre) @ qs) = zs"
    unfolding assms(4) by (rule trailing_after_content[OF assms(5) assms(6)])
  have cnt: "filter has_content (concat (map wd pre) @ qs) = filter has_content older"
    unfolding assms(4) using assms(6) by simp
  note e = emission_at[of pgs pre B post wd qs p bs dims, OF assms(1) assms(2) assms(3),
      unfolded tr cnt]
  have l: "lines (merge_into zs p) = concat (map lines zs) @ lines p"
    by (simp add: merge_into_def)
  have y1: "yielded gen_start = []" and p1: "ps gen_start = []" by (simp_all add: gen_start_def)
  have "ps (pages_loop dims wd pgs 0 gen_start) = trailing (concat (map wd pgs))"
    unfolding ps_pages_loop p1 by (simp add: trailing_all_zero)
  then have all: "concat (map (\<lambda>t. lines (fst t)) (hocr_paragraphs dims wd pgs))
             @ concat (map lines (trailing (concat (map wd pgs))))
             = concat (map lines (concat (map wd pgs)))"
    using lines_pages_loop[of dims wd pgs 0 gen_start]
    by (simp add: hocr_paragraphs_def y1 p1)
  from e l all show ?thesis by simp
qed

theorem merged_lines_in_order_witness:
  "lines (fst (hocr_paragraphs (\<lambda>pg. (10, 20)) id
                 [[fixture_P1, fixture_P2], [fixture_P2, fixture_P3]] ! 1))
   = lines fixture_P2 @ lines fixture_P2 @ lines fixture_P3"
proof -
  have "lines (fst (hocr_paragraphs (\<lambda>pg. (10, 20)) id
                 [[fixture_P1, fixture_P2], [fixture_P2, fixture_P3]]
                 ! length (filter has_content [fixture_P1])))
        = concat (map lines [fixture_P2, fixture_P2]) @ lines fixture_P3"
    using merged_lines_in_order[of "[[fixture_P1, fixture_P2], [fixture_P2, fixture_P3]]"
        "[[fixture_P1, fixture_P2]]" "[fixture_P2, fixture_P3]" "[]" id "[fixture_P2]"
        fixture_P3 "[]" "[fixture_P1]" "[fixture_P2, fixture_P2]" "\<lambda>pg. (10, 20)"]
    by (simp add: fixture_content)
  then show ?thesis by (simp add: fixture_content)
qed

text \<open>
  C10. Let page \<open>A\<close> end with the zero-content paragraphs \<open>zs\<close>, let the pages
  \<open>mid\<close> after it hold zero-content paragraphs only, and let the later page \<open>B\<close> hold
  the paragraph \<open>p\<close> with content after zero-content paragraphs \<open>zs'\<close>. Then the tuple
  yielded for \<open>p\<close> holds the lines of \<open>zs\<close>, of the pages \<open>mid\<close> and of \<open>zs'\<close>
  (after those of whatever was pending before \<open>zs\<close>) followed by the lines of \<open>p\<close>,
  and carries the index, the width and the height of page \<open>B\<close>.
\<close>

theorem pending_crosses_pages:
  assumes "pgs = pre @ [A] @ mid @ [B] @ post"
    and "wd A = as @ zs" and "zs \<noteq> []" and "\<forall>z \<in> set zs. \<not> has_content z"
    and "\<forall>pg \<in> set mid. \<forall>q \<in> set (wd pg). \<not> has_content q"
    and "wd B = zs' @ [p] @ bs" and "\<forall>z \<in> set zs'. \<not> has_content z" and "has_content p"
  shows "length (filter has_content (concat (map wd pre) @ as)) < length (hocr_paragraphs dims wd pgs)
         \<and> hocr_paragraphs dims wd pgs ! length (filter has_content (concat (map wd pre) @ as))
           = (\<lparr>lines = concat (map lines (trailing (concat (map wd pre) @ as)))
                        @ concat (map lines zs) @ concat (map lines (concat (map wd mid)))
                        @ concat (map lines zs') @ lines p\<rparr>,
              fst (hocr_paragraph_text p), length pre + 1 + length mid, fst (dims B), snd (dims B))"
proof -
  define prior where "prior = concat (map wd pre) @ as"
  define held where "held = zs @ concat (map wd mid) @ zs'"
  have pgs': "pgs = (pre @ [A] @ mid) @ [B] @ post" using assms(1) by simp
  have flat: "concat (map wd (pre @ [A] @ mid)) @ zs' = prior @ held"
    by (simp add: assms(2) prior_def held_def)
  have zero: "\<forall>q \<in> set held. \<not> has_content q"
    using assms(4,5,7) by (auto simp: held_def)
  have tr: "trailing (prior @ held) = trailing prior @ held"
    using zero by (simp add: trailing_append)
  have cnt: "filter has_content (prior @ held) = filter has_content prior"
    using zero by simp
  have ne: "trailing prior @ held \<noteq> []" using assms(3) by (simp add: held_def)
  note e = emission_at[of pgs "pre @ [A] @ mid" B post wd zs' p bs dims,
      OF pgs' assms(6) assms(8), unfolded flat tr cnt]
  have m: "merge_into (trailing prior @ held) p
           = \<lparr>lines = concat (map lines (trailing prior)) @ concat (map lines zs)
                @ concat (map lines (concat (map wd mid))) @ concat (map lines zs') @ lines p\<rparr>"
    using ne by (simp add: merge_into_def held_def)
  from e[unfolded m] show ?thesis unfolding prior_def by simp
qed

theorem pending_crosses_pages_witness:
  "hocr_paragraphs page_dims id
     [[fixture_P1, fixture_P2], [fixture_P2], [fixture_P2, fixture_P3, fixture_P1]] ! 1
   = (\<lparr>lines = lines fixture_P2 @ lines fixture_P2 @ lines fixture_P2 @ lines fixture_P3\<rparr>,
      ascii ''World '', 2, 3, 7)"
proof -
  have "trailing [fixture_P1] = []"
    using trailing_snoc[of "[]" fixture_P1] by (simp add: fixture_content)
  then show ?thesis
    using pending_crosses_pages[of
        "[[fixture_P1, fixture_P2], [fixture_P2], [fixture_P2, fixture_P3, fixture_P1]]"
        "[]" "[fixture_P1, fixture_P2]" "[[fixture_P2]]" "[fixture_P2, fixture_P3, fixture_P1]"
        "[]" id "[fixture_P1]" "[fixture_P2]" "[fixture_P2]" fixture_P3 "[fixture_P1]" page_dims]
    by (simp add: fixture_content fixture_text page_dims_def)
qed

text \<open>
  C2, as the code has it. For a page with the three paragraphs \<open>P1\<close> (with content),
  \<open>P2\<close> (zero content) and \<open>P3\<close> (with content), \<open>hocr_paragraphs\<close> yields two
  tuples: \<open>P1\<close> itself with the text of \<open>P1\<close>, and then a paragraph whose lines are
  those of \<open>P2\<close> followed by those of \<open>P3\<close>, with the text of \<open>P3\<close>. The text of a
  paragraph with the single word \<open>World\<close> is that word followed by one space.
\<close>

theorem three_paragraph_run:
  assumes "wd pg = [P1, P2, P3]"
    and "has_content P1" and "\<not> has_content P2" and "has_content P3"
  shows "hocr_paragraphs dims wd [pg]
         = [(P1, fst (hocr_paragraph_text P1), 0, fst (dims pg), snd (dims pg)),
            (\<lparr>lines = lines P2 @ lines P3\<rparr>, fst (hocr_paragraph_text P3), 0,
             fst (dims pg), snd (dims pg))]"
proof -
  obtain w h where d: "dims pg = (w, h)" by (cases "dims pg")
  have "paragraphs_loop 0 w h [P1, P2, P3] gen_start
        = gen_start\<lparr>yielded := [(P1, fst (hocr_paragraph_text P1), 0, w, h),
                                 (\<lparr>lines = lines P2 @ lines P3\<rparr>, fst (hocr_paragraph_text P3), 0, w, h)],
                     text_acc := [], ps := []\<rparr>"
    unfolding paragraphs_loop_content[OF assms(2)] paragraphs_loop_zero[OF assms(3)]
      paragraphs_loop_content[OF assms(4)]
    by (simp add: gen_start_def merge_into_def)
  then show ?thesis by (simp add: hocr_paragraphs_def d assms(1))
qed

theorem three_paragraph_run_witness:
  "hocr_paragraphs (\<lambda>pg. (10, 20)) id [[fixture_P1, fixture_P2, fixture_P3]]
   = [(fixture_P1, ascii ''Hello '', 0, 10, 20),
      (\<lparr>lines = lines fixture_P2 @ lines fixture_P3\<rparr>, ascii ''World '', 0, 10, 20)]"
  using three_paragraph_run[of id "[fixture_P1, fixture_P2, fixture_P3]" fixture_P1 fixture_P2
      fixture_P3 "\<lambda>pg. (10, 20)"]
  by (simp add: fixture_content fixture_text)

text \<open>
  C2, as the specification has it, fails on the page with the paragraphs \<open>Hello\<close>, a word below
  the threshold, \<open>World\<close>: two tuples are yielded, neither has the lines of all three
  paragraphs, and the text of the second is not \<open>World\<close> without the trailing space.
\<close>

theorem one_tuple_for_three_counterexample:
  "length (hocr_paragraphs (\<lambda>pg. (10, 20)) id [[fixture_P1, fixture_P2, fixture_P3]]) = 2
   \<and> lines (fst (hocr_paragraphs (\<lambda>pg. (10, 20)) id [[fixture_P1, fixture_P2, fixture_P3]] ! 0))
       \<noteq> lines fixture_P1 @ lines fixture_P2 @ lines fixture_P3
   \<and> lines (fst (hocr_paragraphs (\<lambda>pg. (10, 20)) id [[fixture_P1, fixture_P2, fixture_P3]] ! 1))
       \<noteq> lines fixture_P1 @ lines fixture_P2 @ lines fixture_P3
   \<and> fst (snd (hocr_paragraphs (\<lambda>pg. (10, 20)) id [[fixture_P1, fixture_P2, fixture_P3]] ! 1))
       \<noteq> ascii ''World''"
proof -
  have out: "hocr_paragraphs (\<lambda>pg. (10, 20)) id [[fixture_P1, fixture_P2, fixture_P3]]
    = [(fixture_P1, fst (hocr_paragraph_text fixture_P1), 0, 10, 20),
       (\<lparr>lines = lines fixture_P2 @ lines fixture_P3\<rparr>, fst (hocr_paragraph_text fixture_P3),
        0, 10, 20)]"
    unfolding hocr_paragraphs_def pages_loop.simps id_apply prod.case
      paragraphs_loop_content[OF fixture_content(1)] paragraphs_loop_zero[OF fixture_content(2)]
      paragraphs_loop_content[OF fixture_content(3)]
    by (simp add: gen_start_def merge_into_def)
  show ?thesis unfolding out
    by (simp add: fixture_text) (simp add: fixture_P1_def fixture_P2_def fixture_P3_def one_word_def ascii_def)
qed


section \<open>Properties of the confidence filter\<close>









lemma boundary_confidence:
  "confidence word_100 = 100" "confidence word_74 = 74" "confidence word_75 = 75"
  by (simp_all add: word_100_def word_74_def word_75_def)

lemma all_words_para_with:
  "all_words (para_with L1 ws L2) = concat (map words L1) @ ws @ concat (map words L2)"
  by (simp add: all_words_def para_with_def)

lemma drop_low_para_with:
  assumes "confidence w < 75"
  shows "drop_low (para_with L1 (A @ [w] @ B) L2) = drop_low (para_with L1 (A @ B) L2)"
  using assms by (simp add: drop_low_def para_with_def drop_low_line_def)

lemma page_text_single_line:
  "page_text_paragraphs [\<lparr>lines = [\<lparr>words = ws\<rparr>]\<rparr>] []
   = (case utf8_encode (strip (kept_text ws)) of
        Inl e \<Rightarrow> Inl e
      | Inr bs \<Rightarrow>
          Inr ((if bs = [] then [] else ascii '' '' @ strip (kept_text ws))
               @ (if \<exists>w \<in> set ws. 75 \<le> confidence w then [0x0A] else [])))"
proof (cases "utf8_encode (strip (kept_text ws))")
  case (Inl e)
  then show ?thesis by (simp add: page_text_words_eq)
next
  case (Inr bs)
  note rt = utf8_roundtrip[OF Inr]
  show ?thesis by (simp add: page_text_words_eq Inr rt)
qed

lemma para_with_single: "para_with [] ws [] = \<lparr>lines = [\<lparr>words = ws\<rparr>]\<rparr>"
  by (simp add: para_with_def)

lemma hocr_page_text_single_line:
  "hocr_page_text (\<lambda>pg. [para_with [] ws []]) page
   = (case utf8_encode (strip (kept_text ws)) of
        Inl e \<Rightarrow> Inl e
      | Inr bs \<Rightarrow>
          Inr ((if bs = [] then [] else ascii '' '' @ strip (kept_text ws))
               @ (if \<exists>w \<in> set ws. 75 \<le> confidence w then [0x0A] else [])))"
  unfolding hocr_page_text_def para_with_single by (rule page_text_single_line)

lemma strip_Nil: "strip [] = []"
  by (simp add: strip_def)

lemma strip_ok: "strip (ascii ''ok '') = ascii ''ok''"
  by (simp add: strip_def ascii_def isspace_def)

lemma encode_ok: "utf8_encode (ascii ''ok'') = Inr (ascii ''ok'')"
  by (simp add: ascii_def encode_char_def)

text \<open>
  C3. A word of confidence exactly 75 is included by the three functions: in
  \<open>get_hocr_words\<close> and \<open>hocr_paragraph_text\<close> it appears at its place, whatever
  words and lines surround it; the word loop of \<open>hocr_page_text\<close> appends its text and
  a space to the line at its place, and a page holding just that word has the stripped
  word as its text (after one space, before the newline), unless the encoding raises.
  A word of confidence 74 is excluded: deleting it changes the result of none of the three
  functions, whatever surrounds it, and a page holding just that word has the empty text.
\<close>

theorem confidence_boundary:
  "(confidence w = 75 \<longrightarrow>
      get_hocr_words (para_with L1 (A @ [w] @ B) L2)
        = get_hocr_words (para_with L1 A []) @ [w] @ get_hocr_words (para_with [] B L2)
    \<and> hocr_paragraph_text (para_with L1 (A @ [w] @ B) L2)
        = (fst (hocr_paragraph_text (para_with L1 A [])) @ word_text w @ ascii '' ''
             @ fst (hocr_paragraph_text (para_with [] B L2)), True)
    \<and> page_text_words (A @ [w] @ B) (lw, bd)
        = page_text_words B (fst (page_text_words A (lw, bd)) @ word_text w @ ascii '' '', True)
    \<and> hocr_page_text (\<lambda>pg. [para_with [] [w] []]) page
        = (case utf8_encode (strip (word_text w @ ascii '' '')) of
             Inl e \<Rightarrow> Inl e
           | Inr bs \<Rightarrow>
               Inr ((if bs = [] then [] else ascii '' '' @ strip (word_text w @ ascii '' ''))
                    @ [0x0A])))
   \<and> (confidence w = 74 \<longrightarrow>
      get_hocr_words (para_with L1 (A @ [w] @ B) L2) = get_hocr_words (para_with L1 (A @ B) L2)
    \<and> hocr_paragraph_text (para_with L1 (A @ [w] @ B) L2)
        = hocr_paragraph_text (para_with L1 (A @ B) L2)
    \<and> page_text_words (A @ [w] @ B) (lw, bd) = page_text_words (A @ B) (lw, bd)
    \<and> hocr_page_text (\<lambda>pg. PS1 @ [para_with L1 (A @ [w] @ B) L2] @ PS2) page
        = hocr_page_text (\<lambda>pg. PS1 @ [para_with L1 (A @ B) L2] @ PS2) page
    \<and> hocr_page_text (\<lambda>pg. [para_with [] [w] []]) page = Inr [])"
proof (intro conjI impI)
  assume c: "confidence w = 75"
  show "get_hocr_words (para_with L1 (A @ [w] @ B) L2)
        = get_hocr_words (para_with L1 A []) @ [w] @ get_hocr_words (para_with [] B L2)"
    by (simp add: get_hocr_words_eq all_words_para_with c)
  show "hocr_paragraph_text (para_with L1 (A @ [w] @ B) L2)
        = (fst (hocr_paragraph_text (para_with L1 A [])) @ word_text w @ ascii '' ''
             @ fst (hocr_paragraph_text (para_with [] B L2)), True)"
    by (simp add: hocr_paragraph_text_eq all_words_para_with kept_text_append kept_text_Cons
          kept_text_Nil c)
  show "page_text_words (A @ [w] @ B) (lw, bd)
        = page_text_words B (fst (page_text_words A (lw, bd)) @ word_text w @ ascii '' '', True)"
    by (simp add: page_text_words_eq kept_text_append kept_text_Cons kept_text_Nil c)
  show "hocr_page_text (\<lambda>pg. [para_with [] [w] []]) page
        = (case utf8_encode (strip (word_text w @ ascii '' '')) of
             Inl e \<Rightarrow> Inl e
           | Inr bs \<Rightarrow>
               Inr ((if bs = [] then [] else ascii '' '' @ strip (word_text w @ ascii '' ''))
                    @ [0x0A]))"
  proof -
    have kt: "kept_text [w] = word_text w @ ascii '' ''"
      by (simp add: kept_text_Cons kept_text_Nil c)
    show ?thesis unfolding hocr_page_text_single_line kt by (simp add: c)
  qed
next
  assume c: "confidence w = 74"
  then have low: "confidence w < 75" by simp
  show "get_hocr_words (para_with L1 (A @ [w] @ B) L2) = get_hocr_words (para_with L1 (A @ B) L2)"
    by (simp add: get_hocr_words_eq all_words_para_with c)
  show "hocr_paragraph_text (para_with L1 (A @ [w] @ B) L2)
        = hocr_paragraph_text (para_with L1 (A @ B) L2)"
    by (simp add: hocr_paragraph_text_eq all_words_para_with kept_text_append kept_text_Cons
          kept_text_Nil c)
  show "page_text_words (A @ [w] @ B) (lw, bd) = page_text_words (A @ B) (lw, bd)"
    by (simp add: page_text_words_eq kept_text_append kept_text_Cons kept_text_Nil c)
  have m: "map drop_low (PS1 @ [para_with L1 (A @ [w] @ B) L2] @ PS2)
           = map drop_low (PS1 @ [para_with L1 (A @ B) L2] @ PS2)"
    by (simp only: map_append list.map drop_low_para_with[OF low])
  have "hocr_page_text (\<lambda>pg. PS1 @ [para_with L1 (A @ [w] @ B) L2] @ PS2) page
        = hocr_page_text (\<lambda>pg. map drop_low (PS1 @ [para_with L1 (A @ [w] @ B) L2] @ PS2)) page"
    using hocr_page_text_drop_low[of "\<lambda>pg. PS1 @ [para_with L1 (A @ [w] @ B) L2] @ PS2" page]
    by (rule sym)
  also have "\<dots> = hocr_page_text (\<lambda>pg. map drop_low (PS1 @ [para_with L1 (A @ B) L2] @ PS2)) page"
    unfolding m ..
  also have "\<dots> = hocr_page_text (\<lambda>pg. PS1 @ [para_with L1 (A @ B) L2] @ PS2) page"
    using hocr_page_text_drop_low[of "\<lambda>pg. PS1 @ [para_with L1 (A @ B) L2] @ PS2" page] .
  finally show "hocr_page_text (\<lambda>pg. PS1 @ [para_with L1 (A @ [w] @ B) L2] @ PS2) page
        = hocr_page_text (\<lambda>pg. PS1 @ [para_with L1 (A @ B) L2] @ PS2) page" .
  show "hocr_page_text (\<lambda>pg. [para_with [] [w] []]) page = Inr []"
  proof -
    have kt: "kept_text [w] = []"
      by (simp add: kept_text_Cons kept_text_Nil c)
    show ?thesis unfolding hocr_page_text_single_line kt by (simp add: c strip_Nil)
  qed
qed

theorem confidence_boundary_witness:
  "get_hocr_words (para_with [] [word_75] []) = [word_75]
   \<and> hocr_paragraph_text (para_with [] [word_75] []) = (ascii ''ok '', True)
   \<and> hocr_page_text (\<lambda>pg. [para_with [] [word_75] []]) () = Inr (ascii '' ok'' @ [0x0A])
   \<and> get_hocr_words (para_with [] [word_74] []) = []
   \<and> hocr_paragraph_text (para_with [] [word_74] []) = ([], False)
   \<and> hocr_page_text (\<lambda>pg. [para_with [] [word_74] []]) () = Inr []"
proof -
  have e: "get_hocr_words (para_with [] [] []) = []"
    "hocr_paragraph_text (para_with [] [] []) = ([], False)"
    by (simp_all add: get_hocr_words_def hocr_paragraph_text_def para_with_def)
  have t75: "word_text word_75 @ ascii '' '' = ascii ''ok ''"
    by (simp add: word_75_def ascii_def)
  have ne: "ascii ''ok'' \<noteq> []" "ascii '' '' @ ascii ''ok'' = ascii '' ok''"
    by (simp_all add: ascii_def)
  note hi = confidence_boundary[of word_75 "[]" "[]" "[]" "[]" "[]" False "()" "[]" "[]",
      THEN conjunct1, rule_format, OF boundary_confidence(3)]
  note lo = confidence_boundary[of word_74 "[]" "[]" "[]" "[]" "[]" False "()" "[]" "[]",
      THEN conjunct2, rule_format, OF boundary_confidence(2)]
  from hi have "get_hocr_words (para_with [] [word_75] []) = [word_75]"
    by (simp add: e)
  moreover from hi have "hocr_paragraph_text (para_with [] [word_75] []) = (ascii ''ok '', True)"
    by (simp add: e t75)
  moreover from hi
  have "hocr_page_text (\<lambda>pg. [para_with [] [word_75] []]) () = Inr (ascii '' ok'' @ [0x0A])"
    by (simp add: t75 strip_ok encode_ok ne)
  moreover from lo have "get_hocr_words (para_with [] [word_74] []) = []"
    by (simp add: e)
  moreover from lo have "hocr_paragraph_text (para_with [] [word_74] []) = ([], False)"
    by (simp add: e)
  moreover from lo have "hocr_page_text (\<lambda>pg. [para_with [] [word_74] []]) () = Inr []"
    by blast
  ultimately show ?thesis by blast
qed




section \<open>The plain text offsets\<close>

lemma accent_words:
  "page_text_words (words \<lparr>words = [\<lparr>word_text = [0xE9], confidence = 100\<rparr>]\<rparr>) ([], False)
   = ([0xE9, 0x20], True)"
  by (simp add: MIN_WORD_CONF_def ascii_def)

lemma accent_strip: "strip [0xE9, 0x20] = [0xE9]"
  by (simp add: strip_def isspace_def)

lemma accent_encode: "utf8_encode [0xE9] = Inr [0xC3, 0xA9]"
  by (simp add: encode_char_def)

lemma accent_decode: "utf8_decode [0xC3, 0xA9] = Inr [0xE9]"
  using utf8_roundtrip[OF accent_encode] .

lemma accent_page_text: "hocr_page_text id [accent_para] = Inr [0x20, 0xE9, 0x0A]"
  unfolding hocr_page_text_def accent_para_def id_apply page_text_paragraphs.simps
    hocr_paragraph.simps page_text_lines.simps accent_words prod.case accent_strip
    accent_encode sum.case accent_decode
  by (simp add: ascii_def)

lemma accent_text_bytes: "utf8_encode [0x20, 0xE9, 0x0A] = Inr [0x20, 0xC3, 0xA9, 0x0A]"
  by (simp add: encode_char_def)

lemma zip_neighbours_length: "length (zip (butlast xs) (tl xs)) = length xs - 1"
  by simp

lemma zip_neighbours_nth:
  assumes "Suc i < length xs"
  shows "zip (butlast xs) (tl xs) ! i = (xs ! i, xs ! Suc i)"
  using assms by (simp add: nth_butlast nth_tl)

lemma plaintext_loop_shape:
  "plaintext_loop wd pgs cursor pbs = Inr r
   \<Longrightarrow> length r = length pbs + length pgs \<and> take (length pbs) r = pbs"
proof (induction pgs arbitrary: cursor pbs)
  case Nil
  then show ?case by simp
next
  case (Cons pg pgs)
  from Cons.prems obtain t where t: "hocr_page_text wd pg = Inr t"
    and r: "plaintext_loop wd pgs (cursor + length t) (pbs @ [cursor + length t]) = Inr r"
    by (auto split: sum.splits)
  from Cons.IH[OF r] have l: "length r = length (pbs @ [cursor + length t]) + length pgs"
    and tk: "take (length (pbs @ [cursor + length t])) r = pbs @ [cursor + length t]"
    by blast+
  have "take (length pbs) r = take (length pbs) (take (length (pbs @ [cursor + length t])) r)"
    by (simp add: min_def)
  also have "\<dots> = pbs" unfolding tk by simp
  finally show ?case using l by simp
qed

lemma mixed_page_text: "hocr_page_text id [mixed_para] = Inr (ascii '' ab ok'' @ [0x0A])"
proof -
  have w: "page_text_words [word_100, word_74, word_75] ([], False) = (ascii ''ab ok '', True)"
    by (simp add: word_100_def word_74_def word_75_def MIN_WORD_CONF_def ascii_def)
  have s: "strip (ascii ''ab ok '') = ascii ''ab ok''"
    by (simp add: strip_def isspace_def ascii_def)
  have e: "utf8_encode (ascii ''ab ok'') = Inr (ascii ''ab ok'')"
    by (simp add: encode_char_def ascii_def)
  note d = utf8_roundtrip[OF e]
  have n: "ascii ''ab ok'' \<noteq> []" by (simp add: ascii_def)
  show ?thesis
    unfolding hocr_page_text_def mixed_para_def para_with_def id_apply append_Nil append_Cons
      page_text_paragraphs.simps hocr_paragraph.simps page_text_lines.simps hocr_line.simps
      w prod.case s e sum.case
    using n by (simp add: d) (simp add: ascii_def)
qed

lemma plaintext_loop_widths:
  "plaintext_loop wd pgs cursor pbs = Inr r \<Longrightarrow> pbs \<noteq> [] \<Longrightarrow> last pbs = cursor
   \<Longrightarrow> i < length pgs
   \<Longrightarrow> \<exists>t. hocr_page_text wd (pgs ! i) = Inr t
           \<and> r ! (length pbs + i) = r ! (length pbs + i - 1) + length t"
proof (induction pgs arbitrary: cursor pbs i)
  case Nil
  then show ?case by simp
next
  case (Cons pg pgs)
  from Cons.prems(1) obtain t0 where t0: "hocr_page_text wd pg = Inr t0"
    and r: "plaintext_loop wd pgs (cursor + length t0) (pbs @ [cursor + length t0]) = Inr r"
    by (auto split: sum.splits)
  from plaintext_loop_shape[OF r]
  have tk: "take (Suc (length pbs)) r = pbs @ [cursor + length t0]" by simp
  show ?case
  proof (cases i)
    case 0
    have "r ! length pbs = take (Suc (length pbs)) r ! length pbs" by simp
    also have "\<dots> = cursor + length t0" unfolding tk by simp
    finally have a: "r ! length pbs = cursor + length t0" .
    have "r ! (length pbs - 1) = take (Suc (length pbs)) r ! (length pbs - 1)" by simp
    also have "\<dots> = pbs ! (length pbs - 1)"
      unfolding tk using Cons.prems(2) by (simp add: nth_append)
    also have "\<dots> = cursor"
      using Cons.prems(2,3) by (simp add: last_conv_nth)
    finally have b: "r ! (length pbs - 1) = cursor" .
    show ?thesis using 0 t0 a b by simp
  next
    case (Suc j)
    with Cons.prems(4) have j: "j < length pgs" by simp
    from Cons.IH[OF r _ _ j]
    obtain t where "hocr_page_text wd (pgs ! j) = Inr t"
      and "r ! (length (pbs @ [cursor + length t0]) + j)
           = r ! (length (pbs @ [cursor + length t0]) + j - 1) + length t"
      by auto
    then show ?thesis using Suc by simp
  qed
qed

lemma plaintext_offsets_width:
  assumes "hocr_get_plaintext_page_offsets wd pgs = Inr offs" and "i < length pgs"
  shows "\<exists>t. hocr_page_text wd (pgs ! i) = Inr t \<and> snd (offs ! i) = fst (offs ! i) + length t"
proof -
  from assms(1) obtain r where r: "plaintext_loop wd pgs 0 [0] = Inr r"
    and offs: "offs = zip (butlast r) (tl r)"
    by (auto simp: hocr_get_plaintext_page_offsets_def split: sum.splits)
  from plaintext_loop_shape[OF r] have len: "length r = Suc (length pgs)" by simp
  from plaintext_loop_widths[OF r _ _ assms(2)]
  obtain t where t: "hocr_page_text wd (pgs ! i) = Inr t" and w: "r ! Suc i = r ! i + length t"
    by auto
  have "Suc i < length r" using len assms(2) by simp
  from zip_neighbours_nth[OF this] have "offs ! i = (r ! i, r ! Suc i)" unfolding offs .
  with t w show ?thesis by simp
qed

lemma encode_char_encodable: "encodable c \<Longrightarrow> \<exists>bs. encode_char c = Inr bs"
  by (auto simp: encodable_def encode_char_def)

lemma utf8_encode_encodable: "\<forall>c \<in> set s. encodable c \<Longrightarrow> \<exists>bs. utf8_encode s = Inr bs"
proof (induction s)
  case Nil
  show ?case by simp
next
  case (Cons c s)
  from Cons.prems obtain b where b: "encode_char c = Inr b"
    using encode_char_encodable[of c] by auto
  from Cons obtain r where r: "utf8_encode s = Inr r" by auto
  show ?case by (simp add: b r)
qed

lemma set_strip: "set (strip s) \<subseteq> set s"
proof -
  have "set (strip s) = set (dropWhile isspace (rev (dropWhile isspace s)))"
    by (simp add: strip_def)
  also have "\<dots> \<subseteq> set (rev (dropWhile isspace s))" by (rule set_dropWhileD[THEN subsetI])
  also have "\<dots> \<subseteq> set s" using set_dropWhileD[of _ isspace s] by auto
  finally show ?thesis .
qed

lemma kept_text_chars:
  "c \<in> set (kept_text ws)
   \<Longrightarrow> c = 0x20 \<or> (\<exists>w \<in> set ws. 75 \<le> confidence w \<and> c \<in> set (word_text w))"
  by (induction ws) (auto simp: kept_text_Nil kept_text_Cons ascii_def split: if_splits)

lemma space_encodable: "encodable 0x20"
  by (simp add: encodable_def)

lemma page_text_lines_returns:
  assumes "\<forall>ln \<in> set ls. \<forall>w \<in> set (words ln). 75 \<le> confidence w
             \<longrightarrow> (\<forall>c \<in> set (word_text w). encodable c)"
  shows "\<exists>r. page_text_lines ls acc = Inr r"
  using assms
proof (induction ls arbitrary: acc)
  case Nil
  show ?case by (cases acc) simp
next
  case (Cons ln ls)
  obtain tx bd where acc: "acc = (tx, bd)" by (cases acc)
  from Cons.prems
  have here: "\<forall>w \<in> set (words ln). 75 \<le> confidence w
                \<longrightarrow> (\<forall>c \<in> set (word_text w). encodable c)"
    and rest: "\<forall>ln \<in> set ls. \<forall>w \<in> set (words ln). 75 \<le> confidence w
                \<longrightarrow> (\<forall>c \<in> set (word_text w). encodable c)"
    by simp_all
  have "\<forall>c \<in> set (strip (kept_text (words ln))). encodable c"
  proof
    fix c assume "c \<in> set (strip (kept_text (words ln)))"
    with set_strip have "c \<in> set (kept_text (words ln))" by blast
    from kept_text_chars[OF this] here space_encodable show "encodable c" by blast
  qed
  from utf8_encode_encodable[OF this]
  obtain bs where bs: "utf8_encode (strip (kept_text (words ln))) = Inr bs" by blast
  note rt = utf8_roundtrip[OF bs]
  define bd' where "bd' = (bd \<or> (\<exists>w \<in> set (words ln). 75 \<le> confidence w))"
  have w: "page_text_words (words ln) ([], bd) = (kept_text (words ln), bd')"
    by (simp add: page_text_words_eq bd'_def)
  show ?case
  proof (cases "bs = []")
    case True
    from Cons.IH[OF rest, of "(tx, bd')"] show ?thesis
      unfolding acc page_text_lines.simps w prod.case bs sum.case using True by simp
  next
    case False
    from Cons.IH[OF rest, of "(tx @ ascii '' '' @ strip (kept_text (words ln)), bd')"]
    show ?thesis
      unfolding acc page_text_lines.simps w prod.case bs sum.case rt using False by simp
  qed
qed

lemma page_text_paragraphs_returns:
  assumes "\<forall>p \<in> set paras. \<forall>w \<in> set (all_words p). 75 \<le> confidence w
             \<longrightarrow> (\<forall>c \<in> set (word_text w). encodable c)"
  shows "\<exists>t. page_text_paragraphs paras tx = Inr t"
  using assms
proof (induction paras arbitrary: tx)
  case Nil
  show ?case by simp
next
  case (Cons p paras)
  from Cons.prems
  have here: "\<forall>w \<in> set (all_words p). 75 \<le> confidence w
                \<longrightarrow> (\<forall>c \<in> set (word_text w). encodable c)"
    and rest: "\<forall>p \<in> set paras. \<forall>w \<in> set (all_words p). 75 \<le> confidence w
                \<longrightarrow> (\<forall>c \<in> set (word_text w). encodable c)"
    by simp_all
  have "\<forall>ln \<in> set (lines p). \<forall>w \<in> set (words ln). 75 \<le> confidence w
             \<longrightarrow> (\<forall>c \<in> set (word_text w). encodable c)"
  proof (intro ballI impI)
    fix ln w c
    assume "ln \<in> set (lines p)" "w \<in> set (words ln)" "75 \<le> confidence w"
      "c \<in> set (word_text w)"
    then have "w \<in> set (all_words p)" by (auto simp: all_words_def)
    with here \<open>75 \<le> confidence w\<close> \<open>c \<in> set (word_text w)\<close> show "encodable c" by blast
  qed
  from page_text_lines_returns[OF this]
  obtain t' bd where r: "page_text_lines (lines p) (tx, False) = Inr (t', bd)" by fastforce
  from Cons.IH[OF rest, of "if bd then t' @ [0x0A] else t'"]
  show ?case unfolding page_text_paragraphs.simps r sum.case prod.case .
qed

lemma hocr_page_text_returns:
  assumes "\<forall>p \<in> set (wd page). \<forall>w \<in> set (all_words p). 75 \<le> confidence w
             \<longrightarrow> (\<forall>c \<in> set (word_text w). encodable c)"
  shows "\<exists>t. hocr_page_text wd page = Inr t"
  unfolding hocr_page_text_def by (rule page_text_paragraphs_returns[OF assms])

lemma plaintext_loop_returns:
  assumes "\<forall>page \<in> set pgs. \<exists>t. hocr_page_text wd page = Inr t"
  shows "\<exists>r. plaintext_loop wd pgs cursor pbs = Inr r"
  using assms
proof (induction pgs arbitrary: cursor pbs)
  case Nil
  show ?case by simp
next
  case (Cons pg pgs)
  from Cons.prems have "\<exists>t. hocr_page_text wd pg = Inr t"
    and rest: "\<forall>page \<in> set pgs. \<exists>t. hocr_page_text wd page = Inr t"
    by simp_all
  then obtain t where t: "hocr_page_text wd pg = Inr t" by blast
  from Cons.IH[OF rest, of "cursor + length t" "pbs @ [cursor + length t]"]
  show ?case unfolding plaintext_loop.simps t sum.case .
qed

lemma plaintext_offsets_returns:
  assumes "\<forall>page \<in> set pgs. \<forall>p \<in> set (wd page). \<forall>w \<in> set (all_words p). 75 \<le> confidence w
             \<longrightarrow> (\<forall>c \<in> set (word_text w). encodable c)"
  shows "\<exists>offs. hocr_get_plaintext_page_offsets wd pgs = Inr offs"
proof -
  have "\<forall>page \<in> set pgs. \<exists>t. hocr_page_text wd page = Inr t"
  proof
    fix page assume "page \<in> set pgs"
    with assms
    have "\<forall>p \<in> set (wd page). \<forall>w \<in> set (all_words p). 75 \<le> confidence w
             \<longrightarrow> (\<forall>c \<in> set (word_text w). encodable c)"
      by (rule bspec)
    then show "\<exists>t. hocr_page_text wd page = Inr t" by (rule hocr_page_text_returns)
  qed
  from plaintext_loop_returns[OF this]
  obtain r where "plaintext_loop wd pgs 0 [0] = Inr r" by blast
  then show ?thesis by (simp add: hocr_get_plaintext_page_offsets_def)
qed


section \<open>The XML offsets\<close>

lemma start_element_eq:
  "start_element h i name attrs
   = (if is_page_start (StartElement name attrs i) then h\<lparr>page_bytes := page_bytes h @ [i]\<rparr> else h)"
  by (auto simp: start_element_def dom_def)

lemma end_element_eq:
  "end_element h i name
   = (if is_body_end (EndElement name i) then h\<lparr>page_bytes := page_bytes h @ [i]\<rparr> else h)"
  by (simp add: end_element_def)

lemma markers_Nil: "markers [] = []"
  by (simp add: markers_def)

lemma markers_Cons:
  "markers (ev # evs) = (if is_page_start ev \<or> is_body_end ev then byte_index ev # markers evs
                         else markers evs)"
  by (simp add: markers_def)

lemma markers_append: "markers (xs @ ys) = markers xs @ markers ys"
  by (simp add: markers_def)

lemma page_bytes_ParseFile: "page_bytes (ParseFile events h) = page_bytes h @ markers events"
proof (induction events arbitrary: h)
  case Nil
  show ?case by (simp add: markers_Nil)
next
  case (Cons ev events)
  show ?case
  proof (cases ev)
    case (StartElement name attrs i)
    show ?thesis unfolding StartElement ParseFile.simps Cons.IH start_element_eq markers_Cons
      by simp
  next
    case (EndElement name i)
    show ?thesis unfolding EndElement ParseFile.simps Cons.IH end_element_eq markers_Cons
      by simp
  qed
qed

lemma xml_offsets_markers:
  "hocr_get_xml_page_offsets (Inr events)
   = Inr (zip (butlast (markers events)) (tl (markers events)))"
  by (simp add: hocr_get_xml_page_offsets_def page_bytes_ParseFile Let_def)

lemma markers_no_body_end:
  "\<not> (\<exists>ev \<in> set events. is_body_end ev) \<Longrightarrow> markers events = page_starts events"
proof -
  assume "\<not> (\<exists>ev \<in> set events. is_body_end ev)"
  then have "filter (\<lambda>ev. is_page_start ev \<or> is_body_end ev) events = filter is_page_start events"
    by (intro filter_cong) auto
  then show ?thesis by (simp add: markers_def page_starts_def)
qed

lemma markers_none:
  "\<not> (\<exists>ev \<in> set events. is_page_start ev \<or> is_body_end ev) \<Longrightarrow> markers events = []"
  by (simp add: markers_def)

lemma zip_neighbours_snoc:
  "zip (butlast (xs @ [e])) (tl (xs @ [e])) = zip xs (tl xs @ [e])"
  by (cases xs) simp_all

lemma ascii_names:
  "ascii ''html'' \<noteq> ascii ''body''" "ascii ''div'' \<noteq> ascii ''body''"
  "ascii ''html'' \<noteq> ascii ''div''" "ascii ''body'' \<noteq> ascii ''div''"
  "ascii ''ocr_carea'' \<noteq> ascii ''ocr_page''"
  by (simp_all add: ascii_def)

lemma fixture_attrs:
  "page_attrs (ascii ''class'') = Some (ascii ''ocr_page'')"
  "area_attrs (ascii ''class'') = Some (ascii ''ocr_carea'')"
  by (simp_all add: page_attrs_def area_attrs_def)

lemma markers_length:
  "length (markers events) = length (page_starts events) + length (filter is_body_end events)"
proof (induction events)
  case Nil
  show ?case by (simp add: markers_def page_starts_def)
next
  case (Cons ev events)
  then show ?case by (cases ev) (simp_all add: markers_def page_starts_def)
qed

lemma zip_neighbours_short: "length xs < 2 \<Longrightarrow> zip (butlast xs) (tl xs) = []"
  by (cases xs) simp_all


section \<open>Properties of the two offset lists\<close>

text \<open>
  C1. The docstring of \<open>hocr_get_plaintext_page_offsets\<close> promises start and end bytes,
  and the specification has the cursor advance by the length of the page text in UTF-8.
  The code advances it by \<open>len (page_text)\<close> of a \<open>str\<close>, the number of code points (lemma
  \<open>plaintext_offsets_width\<close>). On the page whose only word is \<open>U+00E9\<close> the page text
  is a space, that letter and a newline: three code points, four octets in UTF-8; the
  function returns the range from 0 to 3.
\<close>

theorem plaintext_offsets_count_code_points:
  "hocr_page_text id [accent_para] = Inr [0x20, 0xE9, 0x0A]
   \<and> utf8_encode [0x20, 0xE9, 0x0A] = Inr [0x20, 0xC3, 0xA9, 0x0A]
   \<and> hocr_get_plaintext_page_offsets id [[accent_para]] = Inr [(0, 3)]"
proof (intro conjI)
  show "hocr_page_text id [accent_para] = Inr [0x20, 0xE9, 0x0A]"
    by (rule accent_page_text)
  show "utf8_encode [0x20, 0xE9, 0x0A] = Inr [0x20, 0xC3, 0xA9, 0x0A]"
    by (rule accent_text_bytes)
  show "hocr_get_plaintext_page_offsets id [[accent_para]] = Inr [(0, 3)]"
    by (simp add: hocr_get_plaintext_page_offsets_def accent_page_text)
qed

text \<open>
  C6. Whenever \<open>hocr_get_plaintext_page_offsets\<close> returns, it returns one pair per
  page, the first pair starts at 0, and every pair ends where the next one starts. (It
  returns whenever the words at or above the threshold hold encodable code points only:
  lemma \<open>plaintext_offsets_returns\<close>.)
\<close>

theorem plaintext_offsets_contiguous:
  assumes "hocr_get_plaintext_page_offsets wd pgs = Inr offs"
  shows "length offs = length pgs
         \<and> (offs \<noteq> [] \<longrightarrow> fst (offs ! 0) = 0)
         \<and> (\<forall>i. Suc i < length offs \<longrightarrow> snd (offs ! i) = fst (offs ! Suc i))"
proof -
  from assms obtain r where r: "plaintext_loop wd pgs 0 [0] = Inr r"
    and offs: "offs = zip (butlast r) (tl r)"
    by (auto simp: hocr_get_plaintext_page_offsets_def split: sum.splits)
  from plaintext_loop_shape[OF r] have len: "length r = Suc (length pgs)"
    and tk: "take 1 r = [0]" by simp_all
  from tk len have r0: "r ! 0 = 0" by (cases r) simp_all
  have a: "length offs = length pgs" unfolding offs using len by simp
  have b: "fst (offs ! 0) = 0" if "offs \<noteq> []"
  proof -
    from that a have "Suc 0 < length r" using len by (cases pgs) simp_all
    from zip_neighbours_nth[OF this] r0 show ?thesis unfolding offs by simp
  qed
  have c: "snd (offs ! i) = fst (offs ! Suc i)" if "Suc i < length offs" for i
  proof -
    from that a len have 1: "Suc i < length r" and 2: "Suc (Suc i) < length r" by simp_all
    show ?thesis unfolding offs zip_neighbours_nth[OF 1] zip_neighbours_nth[OF 2] by simp
  qed
  from a b c show ?thesis by blast
qed

theorem plaintext_offsets_contiguous_witness:
  "hocr_get_plaintext_page_offsets id [[accent_para], [], [mixed_para]]
     = Inr [(0, 3), (3, 3), (3, 10)]
   \<and> length [(0::nat, 3::nat), (3, 3), (3, 10)] = length [[accent_para], [], [mixed_para]]
   \<and> fst ([(0::nat, 3::nat), (3, 3), (3, 10)] ! 0) = 0
   \<and> snd ([(0::nat, 3::nat), (3, 3), (3, 10)] ! 1) = fst ([(0::nat, 3::nat), (3, 3), (3, 10)] ! 2)"
proof -
  have e: "hocr_page_text id ([] :: hocr_paragraph list) = Inr []"
    by (simp add: hocr_page_text_def)
  have run: "hocr_get_plaintext_page_offsets id [[accent_para], [], [mixed_para]]
             = Inr [(0, 3), (3, 3), (3, 10)]"
    by (simp add: hocr_get_plaintext_page_offsets_def accent_page_text mixed_page_text e ascii_def)
  from plaintext_offsets_contiguous[OF run] run show ?thesis by simp
qed

text \<open>
  C5. \<open>hocr_get_xml_page_offsets\<close> returns the neighbouring pairs of the markers of
  the document, a marker being the byte index of a start of a \<open>div\<close> of class
  \<open>ocr_page\<close> or of an end of a \<open>body\<close>, in document order. When the pages of the
  document are followed by the end of its body, and no other body ends and no page starts
  after it, the range of page \<open>i\<close> runs from the start of page \<open>i\<close> to the start of
  page \<open>i + 1\<close>, and that of the last page to the end of the body.
\<close>

theorem xml_page_ranges:
  "hocr_get_xml_page_offsets (Inr events)
     = Inr (zip (butlast (markers events)) (tl (markers events)))
   \<and> (events = pages @ [EndElement (ascii ''body'') e] @ trailer
        \<and> \<not> (\<exists>ev \<in> set pages. is_body_end ev)
        \<and> \<not> (\<exists>ev \<in> set trailer. is_page_start ev \<or> is_body_end ev)
      \<longrightarrow> hocr_get_xml_page_offsets (Inr events)
            = Inr (zip (page_starts pages) (tl (page_starts pages) @ [e]))
          \<and> (\<forall>i < length (page_starts pages).
                zip (page_starts pages) (tl (page_starts pages) @ [e]) ! i
                = (page_starts pages ! i, (page_starts pages @ [e]) ! Suc i)))"
proof (intro conjI impI)
  show "hocr_get_xml_page_offsets (Inr events)
        = Inr (zip (butlast (markers events)) (tl (markers events)))"
    by (rule xml_offsets_markers)
next
  assume h: "events = pages @ [EndElement (ascii ''body'') e] @ trailer
        \<and> \<not> (\<exists>ev \<in> set pages. is_body_end ev)
        \<and> \<not> (\<exists>ev \<in> set trailer. is_page_start ev \<or> is_body_end ev)"
  then have ev: "events = pages @ [EndElement (ascii ''body'') e] @ trailer"
    and nb: "\<not> (\<exists>ev \<in> set pages. is_body_end ev)"
    and nt: "\<not> (\<exists>ev \<in> set trailer. is_page_start ev \<or> is_body_end ev)"
    by blast+
  have m: "markers events = page_starts pages @ [e]"
    unfolding ev markers_append markers_no_body_end[OF nb] markers_none[OF nt]
    by (simp add: markers_Cons markers_Nil)
  show "hocr_get_xml_page_offsets (Inr events)
        = Inr (zip (page_starts pages) (tl (page_starts pages) @ [e]))"
    unfolding xml_offsets_markers m zip_neighbours_snoc ..
next
  show "\<forall>i < length (page_starts pages).
          zip (page_starts pages) (tl (page_starts pages) @ [e]) ! i
          = (page_starts pages ! i, (page_starts pages @ [e]) ! Suc i)"
  proof (intro allI impI)
    fix i assume i: "i < length (page_starts pages)"
    then have ne: "page_starts pages \<noteq> []" by auto
    then have l: "length (tl (page_starts pages) @ [e]) = length (page_starts pages)" by simp
    have "(tl (page_starts pages) @ [e]) ! i = tl (page_starts pages @ [e]) ! i"
      using ne by simp
    also have "\<dots> = (page_starts pages @ [e]) ! Suc i"
      using i by (simp add: nth_tl)
    finally show "zip (page_starts pages) (tl (page_starts pages) @ [e]) ! i
          = (page_starts pages ! i, (page_starts pages @ [e]) ! Suc i)"
      using i l by simp
  qed
qed

theorem xml_page_ranges_witness:
  "hocr_get_xml_page_offsets (Inr two_page_events) = Inr [(12, 69), (69, 97)]"
proof -
  define pages where "pages =
     [StartElement (ascii ''html'') Map.empty 0, StartElement (ascii ''body'') Map.empty 6,
      StartElement (ascii ''div'') page_attrs 12, StartElement (ascii ''div'') area_attrs 34,
      EndElement (ascii ''div'') 57, EndElement (ascii ''div'') 63,
      StartElement (ascii ''div'') page_attrs 69, EndElement (ascii ''div'') 91]"
  have ev: "two_page_events = pages @ [EndElement (ascii ''body'') 97] @ [EndElement (ascii ''html'') 104]"
    by (simp add: two_page_events_def pages_def)
  have nb: "\<not> (\<exists>ev \<in> set pages. is_body_end ev)"
    by (simp add: pages_def ascii_names)
  have nt: "\<not> (\<exists>ev \<in> set [EndElement (ascii ''html'') 104]. is_page_start ev \<or> is_body_end ev)"
    by (simp add: ascii_names)
  have st: "page_starts pages = [12, 69]"
    by (simp add: page_starts_def pages_def ascii_names fixture_attrs)
  from xml_page_ranges[of two_page_events pages 97 "[EndElement (ascii ''html'') 104]"] ev nb nt
  have "hocr_get_xml_page_offsets (Inr two_page_events)
        = Inr (zip (page_starts pages) (tl (page_starts pages) @ [97]))"
    by blast
  then show ?thesis unfolding st by simp
qed

text \<open>
  C7. When fewer than two markers are recorded, \<open>hocr_get_xml_page_offsets\<close> returns
  the empty list: so for a document without pages and at most one end of a body, and for a
  document with at most one page and no end of a body. For a document of zero pages
  \<open>hocr_get_plaintext_page_offsets\<close> returns the empty list as well.
\<close>

theorem too_few_markers_give_no_ranges:
  "(length (page_bytes (ParseFile events \<lparr>page_bytes = []\<rparr>)) < 2
      \<longrightarrow> hocr_get_xml_page_offsets (Inr events) = Inr [])
   \<and> (page_starts events = [] \<and> length (filter is_body_end events) \<le> 1
      \<longrightarrow> hocr_get_xml_page_offsets (Inr events) = Inr [])
   \<and> (length (page_starts events) \<le> 1 \<and> filter is_body_end events = []
      \<longrightarrow> hocr_get_xml_page_offsets (Inr events) = Inr [])
   \<and> hocr_get_plaintext_page_offsets wd [] = Inr []"
proof (intro conjI impI)
  assume "length (page_bytes (ParseFile events \<lparr>page_bytes = []\<rparr>)) < 2"
  then have "length (markers events) < 2" by (simp add: page_bytes_ParseFile)
  then show "hocr_get_xml_page_offsets (Inr events) = Inr []"
    unfolding xml_offsets_markers by (simp only: zip_neighbours_short)
next
  assume "page_starts events = [] \<and> length (filter is_body_end events) \<le> 1"
  then have "length (markers events) < 2" by (simp add: markers_length)
  then show "hocr_get_xml_page_offsets (Inr events) = Inr []"
    unfolding xml_offsets_markers by (simp only: zip_neighbours_short)
next
  assume "length (page_starts events) \<le> 1 \<and> filter is_body_end events = []"
  then have "length (markers events) < 2" by (simp add: markers_length)
  then show "hocr_get_xml_page_offsets (Inr events) = Inr []"
    unfolding xml_offsets_markers by (simp only: zip_neighbours_short)
next
  show "hocr_get_plaintext_page_offsets wd [] = Inr []"
    by (simp add: hocr_get_plaintext_page_offsets_def)
qed

theorem too_few_markers_give_no_ranges_witness:
  "hocr_get_xml_page_offsets (Inr no_page_events) = Inr []
   \<and> hocr_get_xml_page_offsets (Inr no_body_events) = Inr []
   \<and> hocr_get_xml_page_offsets (Inr []) = Inr []
   \<and> hocr_get_plaintext_page_offsets id ([] :: hocr_paragraph list list) = Inr []"
proof -
  have a: "page_starts no_page_events = [] \<and> length (filter is_body_end no_page_events) \<le> 1"
    by (simp add: page_starts_def no_page_events_def ascii_names)
  have b: "length (page_bytes (ParseFile no_body_events \<lparr>page_bytes = []\<rparr>)) < 2"
    by (simp add: no_body_events_def start_element_eq end_element_eq ascii_names fixture_attrs)
  have c: "length (page_bytes (ParseFile [] \<lparr>page_bytes = []\<rparr>)) < 2"
    by simp
  from a too_few_markers_give_no_ranges[of no_page_events id]
  have "hocr_get_xml_page_offsets (Inr no_page_events) = Inr []" by blast
  moreover from b too_few_markers_give_no_ranges[of no_body_events id]
  have "hocr_get_xml_page_offsets (Inr no_body_events) = Inr []" by blast
  moreover from c too_few_markers_give_no_ranges[of "[]" id]
  have "hocr_get_xml_page_offsets (Inr []) = Inr []" by blast
  moreover from too_few_markers_give_no_ranges[of "[]" id]
  have "hocr_get_plaintext_page_offsets id ([] :: hocr_paragraph list list) = Inr []" by blast
  ultimately show ?thesis by blast
qed

end
